theory Spec2Isabelle
  imports Main
begin

section \<open>JavaScript values as class.js sees them\<close>

text \<open>
  The values that reach \<^verbatim>\<open>Class(args, obj)\<close>. A function written by the user is
  \<open>Fn name is_async source marker\<close>: \<open>is_async\<close> says that its
  \<^verbatim>\<open>constructor.name\<close> is \<^verbatim>\<open>"AsyncFunction"\<close>, \<open>source\<close> is what
  \<^verbatim>\<open>toString()\<close> returns, \<open>marker\<close> is the truthiness of its \<^verbatim>\<open>__async\<close>
  property. \<open>Wrapper orig argNames marker\<close> is the closure that
  \<^verbatim>\<open>asyncify(origFunc, argNames)\<close> returns, again with its \<^verbatim>\<open>__async\<close> marker.
  \<open>SynthCallback\<close> is the completion callback that such a closure appends to the
  arguments. \<open>Cls proto statics\<close> is a class (or an old-style constructor function)
  with the own properties of its \<^verbatim>\<open>prototype\<close> and its own static properties, both in
  the order of \<^verbatim>\<open>Object.getOwnPropertyNames\<close>. \<open>RegExp n\<close> is the n-th regular
  expression of the caller; how it matches is a parameter of the model.
\<close>

datatype jsval =
    Undefined
  | Null
  | Bool bool
  | Num int
  | Str string
  | Arr "jsval list"
  | Obj "(string \<times> jsval) list"
  | RegExp nat
  | Fn string bool string bool
  | Wrapper jsval jsval bool
  | SynthCallback
  | Cls "(string \<times> jsval) list" "(string \<times> jsval) list"

type_synonym props = "(string \<times> jsval) list"

text \<open>JavaScript truthiness: \<^verbatim>\<open>if (v)\<close>, \<^verbatim>\<open>!v\<close>, \<^verbatim>\<open>a || b\<close>.\<close>

fun truthy :: "jsval \<Rightarrow> bool" where
  "truthy Undefined = False"
| "truthy Null = False"
| "truthy (Bool b) = b"
| "truthy (Num n) = (n \<noteq> 0)"
| "truthy (Str s) = (s \<noteq> [])"
| "truthy _ = True"

text \<open>\<^verbatim>\<open>typeof(v) == 'function'\<close>: functions, closures and classes.\<close>

fun is_function :: "jsval \<Rightarrow> bool" where
  "is_function (Fn n a s m) = True"
| "is_function (Wrapper f ns m) = True"
| "is_function SynthCallback = True"
| "is_function (Cls p s) = True"
| "is_function _ = False"

text \<open>\<^verbatim>\<open>typeof(v) == 'object'\<close>; \<^verbatim>\<open>typeof null\<close> is \<^verbatim>\<open>'object'\<close> too.\<close>

fun is_object :: "jsval \<Rightarrow> bool" where
  "is_object Null = True"
| "is_object (Arr xs) = True"
| "is_object (Obj kvs) = True"
| "is_object (RegExp n) = True"
| "is_object _ = False"

text \<open>
  \<^verbatim>\<open>v.constructor.name === "AsyncFunction"\<close>. The closure made by \<^verbatim>\<open>asyncify\<close> is
  declared \<^verbatim>\<open>async function(...args)\<close>, so it is one.
\<close>

fun is_async_function :: "jsval \<Rightarrow> bool" where
  "is_async_function (Fn n a s m) = a"
| "is_async_function (Wrapper f ns m) = True"
| "is_async_function _ = False"

text \<open>The truthiness of \<^verbatim>\<open>v.__async\<close>, for a value that is neither undefined nor null.\<close>

fun async_marker :: "jsval \<Rightarrow> bool" where
  "async_marker (Fn n a s m) = m"
| "async_marker (Wrapper f ns m) = m"
| "async_marker (Obj kvs) = (case map_of kvs ''__async'' of None \<Rightarrow> False | Some v \<Rightarrow> truthy v)"
| "async_marker (Cls p s) = (case map_of s ''__async'' of None \<Rightarrow> False | Some v \<Rightarrow> truthy v)"
| "async_marker _ = False"

text \<open>
  \<^verbatim>\<open>v.toString()\<close> for a function. The closure of \<^verbatim>\<open>asyncify\<close> prints as its own
  source, which starts as below.
\<close>

fun to_source :: "jsval \<Rightarrow> string" where
  "to_source (Fn n a s m) = s"
| "to_source (Wrapper f ns m) = ''async function(...args) {''"
| "to_source _ = []"

subsection \<open>Objects as ordered property lists\<close>

definition has_key :: "props \<Rightarrow> string \<Rightarrow> bool" where
  "has_key ps k = (k \<in> set (map fst ps))"

text \<open>\<^verbatim>\<open>o[k] = v\<close> on own properties: an existing key keeps its place, a new one goes last.\<close>

fun put :: "props \<Rightarrow> string \<Rightarrow> jsval \<Rightarrow> props" where
  "put [] k v = [(k, v)]"
| "put ((k', v') # ps) k v = (if k' = k then (k, v) # ps else (k', v') # put ps k v)"

text \<open>
  The class being augmented. \<open>proto_own\<close> are the own properties of
  \<^verbatim>\<open>obj.prototype\<close>, \<open>proto_chain\<close> what it inherits (parent classes,
  \<^verbatim>\<open>Object.prototype\<close>); \<open>static_own\<close> are the own properties of \<^verbatim>\<open>obj\<close>,
  \<open>static_chain\<close> what it inherits. \<^verbatim>\<open>Class\<close> writes only own properties.
\<close>

record construct =
  proto_own :: props
  proto_chain :: props
  static_own :: props
  static_chain :: props

text \<open>\<^verbatim>\<open>proto[key]\<close>: the own property first, then the chain, else undefined.\<close>

definition proto_get :: "construct \<Rightarrow> string \<Rightarrow> jsval" where
  "proto_get c k =
     (case map_of (proto_own c) k of
        Some v \<Rightarrow> v
      | None \<Rightarrow> (case map_of (proto_chain c) k of Some v \<Rightarrow> v | None \<Rightarrow> Undefined))"

text \<open>\<^verbatim>\<open>obj[key]\<close>, the same way.\<close>

definition static_get :: "construct \<Rightarrow> string \<Rightarrow> jsval" where
  "static_get c k =
     (case map_of (static_own c) k of
        Some v \<Rightarrow> v
      | None \<Rightarrow> (case map_of (static_chain c) k of Some v \<Rightarrow> v | None \<Rightarrow> Undefined))"

text \<open>\<^verbatim>\<open>key in proto\<close> and \<^verbatim>\<open>key in obj\<close>.\<close>

definition in_proto :: "construct \<Rightarrow> string \<Rightarrow> bool" where
  "in_proto c k = (has_key (proto_own c) k \<or> has_key (proto_chain c) k)"

definition in_obj :: "construct \<Rightarrow> string \<Rightarrow> bool" where
  "in_obj c k = (has_key (static_own c) k \<or> has_key (static_chain c) k)"

definition proto_set :: "construct \<Rightarrow> string \<Rightarrow> jsval \<Rightarrow> construct" where
  "proto_set c k v = c\<lparr>proto_own := put (proto_own c) k v\<rparr>"

definition static_set :: "construct \<Rightarrow> string \<Rightarrow> jsval \<Rightarrow> construct" where
  "static_set c k v = c\<lparr>static_own := put (static_own c) k v\<rparr>"

lemma map_of_put: "map_of (put ps k v) = (map_of ps)(k \<mapsto> v)"
  by (induction ps) (auto simp: fun_eq_iff)

lemma keys_put: "fst ` set (put ps k v) = insert k (fst ` set ps)"
proof -
  have "dom (map_of (put ps k v)) = insert k (dom (map_of ps))"
    by (simp add: map_of_put)
  then show ?thesis
    by (simp add: dom_map_of_conv_image_fst)
qed

lemma has_key_put: "has_key (put ps k v) k' = (k' = k \<or> has_key ps k')"
  by (simp add: has_key_def keys_put)

lemma has_key_map_of: "has_key ps k = (map_of ps k \<noteq> None)"
  by (simp add: has_key_def map_of_eq_None_iff)


section \<open>The regular expressions of class.js\<close>

text \<open>
  A matcher returns every remainder that one way of matching leaves, so that a pattern
  matches a prefix of the text when the list of remainders is not empty (JavaScript
  backtracks over the same choices). Source text is taken to be ASCII, where
  \<^verbatim>\<open>\s\<close> is one of the six characters below.
\<close>

definition is_space :: "char \<Rightarrow> bool" where
  "is_space c = (c = CHR '' '' \<or> c = CHR 0x09 \<or> c = CHR 0x0A \<or> c = CHR 0x0B
                 \<or> c = CHR 0x0C \<or> c = CHR 0x0D)"

fun star :: "(char \<Rightarrow> bool) \<Rightarrow> string \<Rightarrow> string list" where
  "star p [] = [[]]"
| "star p (c # cs) = (c # cs) # (if p c then star p cs else [])"

fun plus1 :: "(char \<Rightarrow> bool) \<Rightarrow> string \<Rightarrow> string list" where
  "plus1 p [] = []"
| "plus1 p (c # cs) = (if p c then star p cs else [])"

fun lit :: "string \<Rightarrow> string \<Rightarrow> string list" where
  "lit [] s = [s]"
| "lit (c # cs) [] = []"
| "lit (c # cs) (d # ds) = (if c = d then lit cs ds else [])"

definition andthen :: "string list \<Rightarrow> (string \<Rightarrow> string list) \<Rightarrow> string list" where
  "andthen rs m = concat (map m rs)"

text \<open>
  \<^verbatim>\<open>/^\s*\S+\s*\([^\)]*(callback|cb)\s*\)\s*\{/\<close>, matched against the source text of
  a method.
\<close>

definition sniff_callback :: "string \<Rightarrow> bool" where
  "sniff_callback src =
     (andthen (andthen (andthen (andthen (andthen (andthen (andthen (andthen (andthen
        (star is_space src)
        (plus1 (\<lambda>c. \<not> is_space c)))
        (star is_space))
        (lit ''(''))
        (star (\<lambda>c. c \<noteq> CHR '')'')))
        (\<lambda>s. lit ''callback'' s @ lit ''cb'' s))
        (star is_space))
        (lit '')''))
        (star is_space))
        (lit ''{'') \<noteq> [])"

text \<open>\<^verbatim>\<open>key.match(/^(__name|constructor|prototype)$/)\<close>\<close>

definition skipped_member :: "string \<Rightarrow> bool" where
  "skipped_member k = (k = ''__name'' \<or> k = ''constructor'' \<or> k = ''prototype'')"

text \<open>\<^verbatim>\<open>key.match(/^(name|length|prototype)$/)\<close>\<close>

definition skipped_static :: "string \<Rightarrow> bool" where
  "skipped_static k = (k = ''name'' \<or> k = ''length'' \<or> k = ''prototype'')"

text \<open>\<^verbatim>\<open>key.match(/^__(static|asyncify|events|hooks)/)\<close>: a test of the prefix only.\<close>

definition meta_key :: "string \<Rightarrow> bool" where
  "meta_key k = (lit ''__static'' k \<noteq> [] \<or> lit ''__asyncify'' k \<noteq> []
                 \<or> lit ''__events'' k \<noteq> [] \<or> lit ''__hooks'' k \<noteq> [])"


section \<open>The class builder\<close>

datatype error =
    NotClasses   \<comment> \<open>\<^verbatim>\<open>throw "All items specified in __mixins must be classes."\<close>\<close>
  | TypeError    \<comment> \<open>a property read on undefined or null, a call of a non-function\<close>
  | Unmodelled   \<comment> \<open>an argument of a shape that this model does not follow\<close>

text \<open>\<^verbatim>\<open>o[k]\<close> on a property list, and \<^verbatim>\<open>args.k\<close>: undefined when absent.\<close>

definition prop_of :: "props \<Rightarrow> string \<Rightarrow> jsval" where
  "prop_of ps k = (case map_of ps k of Some v \<Rightarrow> v | None \<Rightarrow> Undefined)"

text \<open>A number as a property key: its decimal digits.\<close>

definition digit_char :: "nat \<Rightarrow> char" where
  "digit_char d = ''0123456789'' ! d"

function show_nat :: "nat \<Rightarrow> string" where
  "show_nat n = (if n < 10 then [digit_char n] else show_nat (n div 10) @ [digit_char (n mod 10)])"
  by pat_completeness auto
termination
  by (relation "measure id") auto

declare show_nat.simps [simp del]

definition show_int :: "int \<Rightarrow> string" where
  "show_int i = (if i < 0 then CHR ''-'' # show_nat (nat (- i)) else show_nat (nat i))"

text \<open>
  \<^verbatim>\<open>o[v]\<close> turns \<open>v\<close> into a property key, the string of \<open>v\<close>. An array is the
  strings of its elements joined by commas, with nothing for undefined and null; a plain
  object is \<^verbatim>\<open>[object Object]\<close>; a function is its source text. For a regular
  expression, a class and the closures of \<^verbatim>\<open>asyncify\<close> the text is not known here
  (\<open>None\<close>).
\<close>

fun join_keys :: "string option list \<Rightarrow> string option" where
  "join_keys [] = Some []"
| "join_keys [k] = k"
| "join_keys (k # ks) =
     (case (k, join_keys ks) of (Some a, Some b) \<Rightarrow> Some (a @ '','' @ b) | _ \<Rightarrow> None)"

fun to_key :: "jsval \<Rightarrow> string option" where
  "to_key (Str s) = Some s"
| "to_key (Num n) = Some (show_int n)"
| "to_key (Bool b) = Some (if b then ''true'' else ''false'')"
| "to_key Undefined = Some ''undefined''"
| "to_key Null = Some ''null''"
| "to_key (Obj kvs) = Some ''[object Object]''"
| "to_key (Fn n a src m) = Some src"
| "to_key (Arr xs) =
     join_keys (map (\<lambda>x. if x = Undefined \<or> x = Null then Some [] else to_key x) xs)"
| "to_key v = None"

text \<open>
  The keys that \<^verbatim>\<open>for (var key in o)\<close> visits, in the order of the property list for
  a plain object, the indices for an array or a string; and the properties read under
  these keys. Other values have no enumerable properties of their own here.
\<close>

fun enum_keys :: "jsval \<Rightarrow> string list" where
  "enum_keys (Obj kvs) = remdups (map fst kvs)"
| "enum_keys (Arr xs) = map show_nat [0..<length xs]"
| "enum_keys (Str s) = map show_nat [0..<length s]"
| "enum_keys _ = []"

fun members :: "jsval \<Rightarrow> props" where
  "members (Obj kvs) = kvs"
| "members (Arr xs) = zip (map show_nat [0..<length xs]) xs"
| "members (Str s) = zip (map show_nat [0..<length s]) (map (\<lambda>c. Str [c]) s)"
| "members _ = []"

text \<open>
  \<^verbatim>\<open>asyncify(origFunc, argNames)\<close> returns a new closure over both; the caller then
  sets its \<^verbatim>\<open>__async\<close>. What the closure does when called is \<open>call_asyncified\<close>
  below.
\<close>

definition asyncify :: "jsval \<Rightarrow> jsval \<Rightarrow> jsval" where
  "asyncify origFunc argNames = Wrapper origFunc argNames False"

fun set_async_marker :: "jsval \<Rightarrow> jsval" where
  "set_async_marker (Wrapper f ns m) = Wrapper f ns True"
| "set_async_marker (Fn n a s m) = Fn n a s True"
| "set_async_marker v = v"

text \<open>
  \<^verbatim>\<open>proto[key] = asyncify( proto[key], names ); proto[key].__async = true;\<close>
\<close>

definition convert :: "jsval \<Rightarrow> string \<Rightarrow> construct \<Rightarrow> construct" where
  "convert names k c = proto_set c k (set_async_marker (asyncify (proto_get c k) names))"

text \<open>
  \<^verbatim>\<open>!proto[key].__async && (proto[key].constructor.name !== "AsyncFunction")\<close>
\<close>

definition unconverted :: "jsval \<Rightarrow> bool" where
  "unconverted v = (\<not> async_marker v \<and> \<not> is_async_function v)"

text \<open>
  The body of the \<^verbatim>\<open>forEach\<close> over an array of method names. An entry whose key is
  not known here is an entry that names no method, and is passed over.
\<close>

definition asyncify_named :: "jsval \<Rightarrow> construct \<Rightarrow> construct" where
  "asyncify_named v c =
     (case to_key v of
        None \<Rightarrow> c
      | Some k \<Rightarrow>
          if truthy (proto_get c k) \<and> unconverted (proto_get c k)
          then convert Undefined k c else c)"

text \<open>The body of the \<^verbatim>\<open>forEach\<close> over the own property names, for a regular expression.\<close>

definition asyncify_matching :: "(string \<Rightarrow> bool) \<Rightarrow> string \<Rightarrow> construct \<Rightarrow> construct" where
  "asyncify_matching matches k c =
     (if \<not> skipped_member k \<and> is_function (proto_get c k) \<and> matches k
         \<and> unconverted (proto_get c k)
      then convert Undefined k c else c)"

text \<open>The body of the \<^verbatim>\<open>for ... in\<close> over a hash of result names.\<close>

definition asyncify_mapped :: "props \<Rightarrow> string \<Rightarrow> construct \<Rightarrow> construct" where
  "asyncify_mapped kvs k c =
     (if truthy (proto_get c k) \<and> unconverted (proto_get c k)
      then convert (prop_of kvs k) k c else c)"

text \<open>The body of the \<^verbatim>\<open>forEach\<close> that sniffs the parameter list.\<close>

definition asyncify_sniffed :: "string \<Rightarrow> construct \<Rightarrow> construct" where
  "asyncify_sniffed k c =
     (if \<not> skipped_member k \<and> is_function (proto_get c k)
         \<and> sniff_callback (to_source (proto_get c k)) \<and> unconverted (proto_get c k)
      then convert Undefined k c else c)"

text \<open>
  \<^verbatim>\<open>if (args.__asyncify) { ... }\<close>, with \<open>rx n\<close> saying which strings the n-th regular
  expression matches. \<open>Object.getOwnPropertyNames(proto)\<close> is read once, before the
  loop.
\<close>

definition asyncify_pass :: "(nat \<Rightarrow> string \<Rightarrow> bool) \<Rightarrow> jsval \<Rightarrow> construct \<Rightarrow> construct" where
  "asyncify_pass rx a c =
     (if truthy a then
        (if is_object a then
           (case a of
              Arr ks \<Rightarrow> fold asyncify_named ks c
            | RegExp n \<Rightarrow> fold (asyncify_matching (rx n)) (map fst (proto_own c)) c
            | _ \<Rightarrow> fold (asyncify_mapped (members a)) (enum_keys a) c)
         else fold asyncify_sniffed (map fst (proto_own c)) c)
      else c)"

text \<open>
  \<^verbatim>\<open>for (var key in args.__static) obj[key] = args.__static[key];\<close> The properties
  \<^verbatim>\<open>name\<close>, \<^verbatim>\<open>length\<close> and \<^verbatim>\<open>prototype\<close> of a class are not writable, and
  class.js is not in strict mode: an assignment to one of them does nothing. (The class
  is taken not to declare static members of these names itself.)
\<close>

definition read_only_static :: "string \<Rightarrow> bool" where
  "read_only_static k = (k = ''name'' \<or> k = ''length'' \<or> k = ''prototype'')"

definition assign_static :: "jsval \<Rightarrow> string \<Rightarrow> construct \<Rightarrow> construct" where
  "assign_static st k c =
     (if read_only_static k then c else static_set c k (prop_of (members st) k))"

definition static_pass :: "jsval \<Rightarrow> construct \<Rightarrow> construct" where
  "static_pass st c = (if truthy st then fold (assign_static st) (enum_keys st) c else c)"


subsection \<open>Mixins\<close>

text \<open>
  \<^verbatim>\<open>class HookHelper\<close> as a value: the own properties of its prototype and of the
  class. The source text of a method is cut after the opening brace.
\<close>

definition HookHelper :: jsval where
  "HookHelper = Cls
     [(''constructor'', Fn ''HookHelper'' False ''class HookHelper {'' False),
      (''registerHook'', Fn ''registerHook'' False ''registerHook(name, handler) {'' False),
      (''removeHook'', Fn ''removeHook'' False ''removeHook(name, handler) {'' False),
      (''fireHook'', Fn ''fireHook'' False ''fireHook(name, thingy, callback) {'' False)]
     [(''length'', Num 0), (''name'', Str ''HookHelper''), (''prototype'', Null)]"

text \<open>
  \<^verbatim>\<open>var class_proto = class_obj.prototype; if (!class_proto) throw ...\<close>: the own
  properties of the prototype and of the class itself, or the error. A plain object
  counts when its \<^verbatim>\<open>prototype\<close> property is a plain object.
\<close>

fun mixin_parts :: "jsval \<Rightarrow> error + props \<times> props" where
  "mixin_parts (Cls p s) = Inr (p, s)"
| "mixin_parts Undefined = Inl TypeError"
| "mixin_parts Null = Inl TypeError"
| "mixin_parts (Obj kvs) =
     (case prop_of kvs ''prototype'' of
        Obj p \<Rightarrow> Inr (p, kvs)
      | v \<Rightarrow> if truthy v then Inl Unmodelled else Inl NotClasses)"
| "mixin_parts v = Inl NotClasses"

text \<open>
  \<^verbatim>\<open>if (!key.match(/^(__name|constructor|prototype)$/) && !(key in proto))
      proto[key] = class_proto[key];\<close>
\<close>

definition merge_member :: "props \<Rightarrow> string \<Rightarrow> construct \<Rightarrow> construct" where
  "merge_member class_proto k c =
     (if \<not> skipped_member k \<and> \<not> in_proto c k then proto_set c k (prop_of class_proto k) else c)"

text \<open>
  \<^verbatim>\<open>if (!key.match(/^(name|length|prototype)$/) && !(key in obj))
      obj[key] = class_obj[key];\<close>
\<close>

definition merge_static :: "props \<Rightarrow> string \<Rightarrow> construct \<Rightarrow> construct" where
  "merge_static class_obj k c =
     (if \<not> skipped_static k \<and> \<not> in_obj c k then static_set c k (prop_of class_obj k) else c)"

definition merge_one :: "props \<Rightarrow> props \<Rightarrow> construct \<Rightarrow> construct" where
  "merge_one class_proto class_obj c =
     fold (merge_static class_obj) (map fst class_obj)
       (fold (merge_member class_proto) (map fst class_proto) c)"

text \<open>
  \<^verbatim>\<open>for (var idx = 0, len = mixins.length; idx < len; idx++) { ... }\<close>. The class is
  changed in place, so what was merged before a throw stays merged: the result is the
  class as it is left, with the error if there was one.
\<close>

fun merge_mixins :: "jsval list \<Rightarrow> construct \<Rightarrow> construct \<times> error option" where
  "merge_mixins [] c = (c, None)"
| "merge_mixins (m # ms) c =
     (case mixin_parts m of
        Inl e \<Rightarrow> (c, Some e)
      | Inr (class_proto, class_obj) \<Rightarrow> merge_mixins ms (merge_one class_proto class_obj c))"

subsection \<open>Class(args, obj)\<close>

text \<open>
  \<^verbatim>\<open>var mixins = args.__mixins || [];\<close> makes \<^verbatim>\<open>mixins\<close> another name of the
  caller's array when there is one, and a new array otherwise. \<open>mixins_binding\<close> keeps
  that apart: \<open>Aliased\<close> stands for the array held in \<^verbatim>\<open>args.__mixins\<close>, which is
  read and written through \<open>args\<close>; \<open>Fresh xs\<close> is the local array.
\<close>

datatype mixins_binding = Aliased | Fresh "jsval list"

definition bind_mixins :: "props \<Rightarrow> mixins_binding" where
  "bind_mixins args = (if truthy (prop_of args ''__mixins'') then Aliased else Fresh [])"

text \<open>\<^verbatim>\<open>mixins.unshift( x )\<close>, on whichever array \<^verbatim>\<open>mixins\<close> names.\<close>

fun unshift :: "jsval \<Rightarrow> props \<times> mixins_binding \<Rightarrow> error + props \<times> mixins_binding" where
  "unshift x (args, Fresh xs) = Inr (args, Fresh (x # xs))"
| "unshift x (args, Aliased) =
     (case prop_of args ''__mixins'' of
        Arr xs \<Rightarrow> Inr (put args ''__mixins'' (Arr (x # xs)), Aliased)
      | v \<Rightarrow> Inl TypeError)"

text \<open>The elements of the array that \<^verbatim>\<open>mixins\<close> names, for the loop.\<close>

fun mixins_elems :: "props \<times> mixins_binding \<Rightarrow> error + jsval list" where
  "mixins_elems (args, Fresh xs) = Inr xs"
| "mixins_elems (args, Aliased) =
     (case prop_of args ''__mixins'' of Arr xs \<Rightarrow> Inr xs | v \<Rightarrow> Inl Unmodelled)"

text \<open>
  \<^verbatim>\<open>if (args.__events) mixins.unshift( events.EventEmitter );
  if (args.__hooks) mixins.unshift( HookHelper );\<close>
\<close>

definition assemble_mixins :: "jsval \<Rightarrow> props \<Rightarrow> error + props \<times> mixins_binding" where
  "assemble_mixins EventEmitter args =
     (case (if truthy (prop_of args ''__events'')
            then unshift EventEmitter (args, bind_mixins args)
            else Inr (args, bind_mixins args)) of
        Inl e \<Rightarrow> Inl e
      | Inr am \<Rightarrow> if truthy (prop_of args ''__hooks'') then unshift HookHelper am else Inr am)"

text \<open>
  \<^verbatim>\<open>if (args.__hooks && !proto.fireHook.__async) {
      proto.fireHook = asyncify( proto.fireHook ); proto.fireHook.__async = true; }\<close>
\<close>

definition finalize_hooks :: "props \<Rightarrow> construct \<Rightarrow> error + construct" where
  "finalize_hooks args c =
     (if truthy (prop_of args ''__hooks'') then
        (if proto_get c ''fireHook'' = Undefined \<or> proto_get c ''fireHook'' = Null
         then Inl TypeError
         else if \<not> async_marker (proto_get c ''fireHook'')
              then Inr (convert Undefined ''fireHook'' c) else Inr c)
      else Inr c)"

text \<open>
  \<^verbatim>\<open>for (var key in args) if (!key.match(/^__(static|asyncify|events|hooks)/))
      proto[key] = args[key];\<close>
\<close>

definition copy_arg :: "props \<Rightarrow> string \<Rightarrow> construct \<Rightarrow> construct" where
  "copy_arg args k c = (if \<not> meta_key k then proto_set c k (prop_of args k) else c)"

definition instance_defaults :: "props \<Rightarrow> construct \<Rightarrow> construct" where
  "instance_defaults args c = fold (copy_arg args) (remdups (map fst args)) c"

text \<open>
  The whole function. It returns \<^verbatim>\<open>obj\<close>, or throws; both \<^verbatim>\<open>args\<close> and
  \<^verbatim>\<open>obj\<close> are changed in place, so the result is \<^verbatim>\<open>args\<close> and \<^verbatim>\<open>obj\<close> as they
  are left, with the error if one was thrown.
\<close>

definition Class ::
  "(nat \<Rightarrow> string \<Rightarrow> bool) \<Rightarrow> jsval \<Rightarrow> props \<Rightarrow> construct \<Rightarrow> props \<times> construct \<times> error option" where
  "Class rx EventEmitter args obj =
     (let c1 = static_pass (prop_of args ''__static'') obj;
          c2 = asyncify_pass rx (prop_of args ''__asyncify'') c1
      in case assemble_mixins EventEmitter args of
           Inl e \<Rightarrow> (args, c2, Some e)
         | Inr (args', mixins) \<Rightarrow>
             (case mixins_elems (args', mixins) of
                Inl e \<Rightarrow> (args', c2, Some e)
              | Inr ms \<Rightarrow>
                  (case merge_mixins ms c2 of
                     (c3, Some e) \<Rightarrow> (args', c3, Some e)
                   | (c3, None) \<Rightarrow>
                       (case finalize_hooks args' c3 of
                          Inl e \<Rightarrow> (args', c3, Some e)
                        | Inr c4 \<Rightarrow> (args', instance_defaults args' c4, None)))))"


section \<open>Reading and writing properties\<close>

lemma proto_get_proto_set: "proto_get (proto_set c k' v) k = (if k = k' then v else proto_get c k)"
  by (simp add: proto_get_def proto_set_def map_of_put split: option.split)

lemma in_proto_proto_set: "in_proto (proto_set c k' v) k = (k = k' \<or> in_proto c k)"
  by (auto simp: in_proto_def proto_set_def has_key_put)

lemma proto_get_static_set: "proto_get (static_set c k' v) k = proto_get c k"
  by (simp add: proto_get_def static_set_def split: option.split)

lemma in_proto_static_set: "in_proto (static_set c k' v) k = in_proto c k"
  by (simp add: in_proto_def static_set_def)

lemma static_get_static_set: "static_get (static_set c k' v) k = (if k = k' then v else static_get c k)"
  by (simp add: static_get_def static_set_def map_of_put split: option.split)

lemma in_obj_static_set: "in_obj (static_set c k' v) k = (k = k' \<or> in_obj c k)"
  by (auto simp: in_obj_def static_set_def has_key_put)

lemma static_get_proto_set: "static_get (proto_set c k' v) k = static_get c k"
  by (simp add: static_get_def proto_set_def split: option.split)

lemma in_obj_proto_set: "in_obj (proto_set c k' v) k = in_obj c k"
  by (simp add: in_obj_def proto_set_def)

lemmas set_get_simps = proto_get_proto_set in_proto_proto_set proto_get_static_set
  in_proto_static_set static_get_static_set in_obj_static_set static_get_proto_set
  in_obj_proto_set

text \<open>Folding the member loop: what is visible stays as it is.\<close>

lemma fold_merge_member_keeps:
  "in_proto c k \<Longrightarrow>
   in_proto (fold (merge_member p) ks c) k \<and> proto_get (fold (merge_member p) ks c) k = proto_get c k"
  by (induction ks arbitrary: c) (auto simp: merge_member_def set_get_simps)



lemma fold_merge_static_proto:
  "in_proto (fold (merge_static s) ks c) k = in_proto c k \<and>
   proto_get (fold (merge_static s) ks c) k = proto_get c k"
  by (induction ks arbitrary: c) (auto simp: merge_static_def set_get_simps)

lemma merge_one_keeps_proto:
  "in_proto c k \<Longrightarrow> in_proto (merge_one p s c) k \<and> proto_get (merge_one p s c) k = proto_get c k"
  by (simp add: merge_one_def fold_merge_static_proto fold_merge_member_keeps)


lemma merge_mixins_keeps_proto:
  "in_proto c k \<Longrightarrow>
   in_proto (fst (merge_mixins ms c)) k \<and> proto_get (fst (merge_mixins ms c)) k = proto_get c k"
proof (induction ms arbitrary: c)
  case Nil
  then show ?case by simp
next
  case (Cons m ms)
  show ?case
  proof (cases "mixin_parts m")
    case (Inl e)
    with Cons.prems show ?thesis by simp
  next
    case (Inr ps)
    obtain p s where ps: "ps = (p, s)" by (cases ps)
    from Cons.prems have "in_proto (merge_one p s c) k" and "proto_get (merge_one p s c) k = proto_get c k"
      by (simp_all add: merge_one_keeps_proto)
    with Cons.IH [of "merge_one p s c"] Inr ps show ?thesis by simp
  qed
qed







section \<open>Mixin merging\<close>

text \<open>
  The classes of the README's mixin example, with members added so that names collide:
  \<^verbatim>\<open>Soda\<close> is the target, \<^verbatim>\<open>Liquid\<close> and \<^verbatim>\<open>Glass\<close> are the mixins.
\<close>

definition ex_target :: construct where
  "ex_target = \<lparr>proto_own = [(''constructor'', Fn ''Soda'' False ''class Soda {'' False),
                               (''drink'', Fn ''drink'' False ''drink() {'' False)],
                  proto_chain = [(''toString'', Fn ''toString'' False
                                    ''function toString() { [native code] }'' False)],
                  static_own = [(''length'', Num 0), (''name'', Str ''Soda''),
                                (''kind'', Str ''soda'')],
                  static_chain = []\<rparr>"

definition liquid_proto :: props where
  "liquid_proto = [(''constructor'', Fn ''Liquid'' False ''class Liquid {'' False),
                   (''__name'', Str ''Liquid''), (''flavor'', Str ''sweet''), (''drink'', Null)]"

definition liquid_static :: props where
  "liquid_static = [(''length'', Num 0), (''name'', Str ''Liquid''), (''kind'', Str ''liquid''),
                    (''unit'', Str ''oz'')]"

definition glass_proto :: props where
  "glass_proto = [(''constructor'', Fn ''Glass'' False ''class Glass {'' False),
                  (''__name'', Str ''Glass''), (''flavor'', Str ''none''), (''size'', Num 8)]"

definition glass_static :: props where
  "glass_static = [(''length'', Num 0), (''name'', Str ''Glass''), (''unit'', Str ''ml'')]"

lemmas ex_defs = ex_target_def liquid_proto_def liquid_static_def glass_proto_def
  glass_static_def in_proto_def in_obj_def has_key_def skipped_member_def skipped_static_def
  prop_of_def proto_get_def static_get_def





section \<open>What Class does to its arguments\<close>

lemma prop_of_put: "prop_of (put ps k v) k' = (if k' = k then v else prop_of ps k')"
  by (simp add: prop_of_def map_of_put)

lemma assemble_mixins_Arr:
  assumes "prop_of args ''__mixins'' = Arr ms"
  shows "\<exists>args'. assemble_mixins EE args = Inr (args', Aliased) \<and>
           prop_of args' ''__mixins'' =
             Arr ((if truthy (prop_of args ''__hooks'') then [HookHelper] else []) @
                  (if truthy (prop_of args ''__events'') then [EE] else []) @ ms)"
  using assms by (simp add: assemble_mixins_def bind_mixins_def prop_of_put)

lemma fst_Class:
  "assemble_mixins EE args = Inr (args', b) \<Longrightarrow> fst (Class rx EE args obj) = args'"
  by (simp add: Class_def Let_def split: sum.splits prod.splits option.splits)

text \<open>
  A stand-in for Node's \<^verbatim>\<open>events.EventEmitter\<close>, and a configuration that asks for
  hooks and events and brings a mixin list of its own.
\<close>

definition ex_emitter :: jsval where
  "ex_emitter = Cls [(''constructor'', Fn ''EventEmitter'' False ''function EventEmitter(opts) {'' False),
                     (''on'', Fn ''addListener'' False ''function addListener(type, listener) {'' False),
                     (''emit'', Fn ''emit'' False ''function emit(type, ...args) {'' False)]
                    [(''length'', Num 1), (''name'', Str ''EventEmitter''), (''prototype'', Null),
                     (''defaultMaxListeners'', Num 10)]"

definition ex_args :: props where
  "ex_args = [(''__mixins'', Arr [Cls liquid_proto liquid_static]), (''__hooks'', Bool True),
              (''__events'', Bool True), (''size'', Num 8)]"

text \<open>
  Claim C10. When the configuration holds a mixin array and asks for events or hooks,
  \<^verbatim>\<open>Class\<close> leaves the caller's configuration with a longer array under
  \<^verbatim>\<open>__mixins\<close>: \<^verbatim>\<open>HookHelper\<close> (if hooks) and the event emitter (if events) come
  first, then the caller's own entries. This holds whether \<^verbatim>\<open>Class\<close> returns or throws.
\<close>

theorem caller_mixin_list_is_extended:
  assumes "prop_of args ''__mixins'' = Arr ms"
    and "truthy (prop_of args ''__events'') \<or> truthy (prop_of args ''__hooks'')"
  shows "\<exists>ms'. prop_of (fst (Class rx EventEmitter args obj)) ''__mixins'' = Arr ms' \<and>
           ms' = (if truthy (prop_of args ''__hooks'') then [HookHelper] else []) @
                 (if truthy (prop_of args ''__events'') then [EventEmitter] else []) @ ms \<and>
           length ms < length ms'"
proof -
  from assemble_mixins_Arr [OF assms(1), of EventEmitter]
  obtain args' where a: "assemble_mixins EventEmitter args = Inr (args', Aliased)"
    and m: "prop_of args' ''__mixins'' =
             Arr ((if truthy (prop_of args ''__hooks'') then [HookHelper] else []) @
                  (if truthy (prop_of args ''__events'') then [EventEmitter] else []) @ ms)"
    by blast
  from a have "fst (Class rx EventEmitter args obj) = args'" by (rule fst_Class)
  with m assms(2) show ?thesis by auto
qed

theorem caller_mixin_list_is_extended_witness:
  "prop_of ex_args ''__mixins'' = Arr [Cls liquid_proto liquid_static] \<and>
   truthy (prop_of ex_args ''__hooks'') \<and>
   prop_of (fst (Class (\<lambda>n s. False) ex_emitter ex_args ex_target)) ''__mixins''
     = Arr [HookHelper, ex_emitter, Cls liquid_proto liquid_static]"
  using caller_mixin_list_is_extended [of ex_args "[Cls liquid_proto liquid_static]"
      "\<lambda>n s. False" ex_emitter ex_target]
  by (simp add: ex_args_def prop_of_def)

section \<open>Instance defaults\<close>

text \<open>
  A configuration with a mixin list, a key that only starts like a directive, and an
  ordinary key.
\<close>

definition soda_args :: props where
  "soda_args = [(''__mixins'', Arr [Cls glass_proto glass_static]),
                (''__eventsSeen'', Num 0), (''size'', Num 12)]"

text \<open>
  Claim C4, on this configuration. \<^verbatim>\<open>Class\<close> returns normally, and the prototype then
  has the mixin list itself under \<^verbatim>\<open>__mixins\<close>, has nothing under
  \<^verbatim>\<open>__eventsSeen\<close>, and has the ordinary key \<^verbatim>\<open>size\<close> with the configuration's
  value.
\<close>

theorem mixins_key_lands_on_prototype:
  "snd (snd (Class rx EventEmitter soda_args ex_target)) = None \<and>
   proto_get (fst (snd (Class rx EventEmitter soda_args ex_target))) ''__mixins''
     = Arr [Cls glass_proto glass_static] \<and>
   \<not> in_proto (fst (snd (Class rx EventEmitter soda_args ex_target))) ''__eventsSeen'' \<and>
   proto_get (fst (snd (Class rx EventEmitter soda_args ex_target))) ''size'' = Num 12"
  by (simp add: Class_def soda_args_def ex_defs static_pass_def asyncify_pass_def
      assemble_mixins_def bind_mixins_def merge_one_def merge_member_def merge_static_def
      proto_set_def static_set_def finalize_hooks_def instance_defaults_def copy_arg_def
      meta_key_def)


section \<open>Calling a converted method\<close>

text \<open>
  What a call of a user's function does, as far as \<^verbatim>\<open>asyncify\<close> can tell: how the
  call ends, and with which argument lists the function invokes its last argument (its
  callback): during the call (\<open>sync_calls\<close>) and after it has returned (\<open>later_calls\<close>),
  each in order. A function that throws makes no later calls.
\<close>

datatype outcome = Returned jsval | Threw jsval

record effect =
  sync_calls :: "jsval list list"
  outcome :: outcome
  later_calls :: "jsval list list"

text \<open>A promise, seen from outside: not settled, fulfilled or rejected.\<close>

datatype promise = Pending | Resolved jsval | Rejected jsval

text \<open>What the caller of a function gets: its plain outcome, or a promise.\<close>

datatype yield = Plain outcome | Promise promise

text \<open>\<^verbatim>\<open>results[idx]\<close>: undefined when out of range.\<close>

definition elem :: "jsval list \<Rightarrow> nat \<Rightarrow> jsval" where
  "elem xs i = (if i < length xs then xs ! i else Undefined)"

fun is_Str :: "jsval \<Rightarrow> bool" where
  "is_Str (Str s) = True"
| "is_Str v = False"

fun the_Str :: "jsval \<Rightarrow> string" where
  "the_Str (Str s) = s"
| "the_Str v = []"

text \<open>
  \<^verbatim>\<open>argNames.forEach( function(name, idx) { resultsObj[name] = results[idx]; } )\<close>,
  with \<open>idx\<close> counted from \<open>i\<close>.
\<close>

fun name_results :: "string list \<Rightarrow> nat \<Rightarrow> jsval list \<Rightarrow> props \<Rightarrow> props" where
  "name_results [] i results resultsObj = resultsObj"
| "name_results (name # names) i results resultsObj =
     name_results names (Suc i) results (put resultsObj name (elem results i))"

text \<open>
  The synthesized callback \<^verbatim>\<open>function(...results) { ... }\<close>, called with \<open>received\<close>:
  what it does to the promise. \<^verbatim>\<open>results.shift()\<close> takes the first value off, undefined
  when there is none. \<open>None\<close> is the case that this model does not follow: a truthy
  \<^verbatim>\<open>argNames\<close> that is not an array of strings.
\<close>

definition synth_callback :: "jsval \<Rightarrow> jsval list \<Rightarrow> promise option" where
  "synth_callback argNames received =
     (let err = elem received 0; results = tl received in
      if truthy err then Some (Rejected err)
      else if truthy argNames then
        (case argNames of
           Arr names \<Rightarrow>
             if list_all is_Str names
             then Some (Resolved (Obj (name_results (map the_Str names) 0 results [])))
             else None
         | v \<Rightarrow> None)
      else Some (Resolved (if length results > 1 then Arr results else elem results 0)))"

text \<open>
  The promise of \<^verbatim>\<open>new Promise( (resolve, reject) => { origFunc.call(self, ...args,
  callback) } )\<close>: the first call of the callback settles it, later ones change nothing; a
  throw out of the executor rejects it if it is not settled yet.
\<close>

definition settle :: "jsval \<Rightarrow> effect \<Rightarrow> promise option" where
  "settle argNames e =
     (case sync_calls e of
        received # rest \<Rightarrow> synth_callback argNames received
      | [] \<Rightarrow>
          (case outcome e of
             Threw x \<Rightarrow> Some (Rejected x)
           | Returned v \<Rightarrow>
               (case later_calls e of
                  received # rest \<Rightarrow> synth_callback argNames received
                | [] \<Rightarrow> Some Pending)))"

text \<open>
  A call of the closure that \<^verbatim>\<open>asyncify(origFunc, argNames)\<close> returned, with \<open>run f
  args\<close> saying what a call of \<open>f\<close> with \<open>args\<close> does (\<^verbatim>\<open>this\<close> is passed on as it
  is and left out). The result is the argument list that \<^verbatim>\<open>origFunc\<close> received and what
  the caller of the closure gets. The closure is an \<^verbatim>\<open>async function\<close>: whatever its
  body returns or throws reaches the caller as a promise.
\<close>

definition call_asyncified ::
  "(jsval \<Rightarrow> jsval list \<Rightarrow> effect) \<Rightarrow> jsval \<Rightarrow> jsval \<Rightarrow> jsval list \<Rightarrow> (jsval list \<times> yield) option" where
  "call_asyncified run origFunc argNames args =
     (if args \<noteq> [] \<and> is_function (last args) then
        Some (args, Promise (case outcome (run origFunc args) of
                               Returned v \<Rightarrow> Resolved v
                             | Threw x \<Rightarrow> Rejected x))
      else
        (case settle argNames (run origFunc (args @ [SynthCallback])) of
           None \<Rightarrow> None
         | Some p \<Rightarrow> Some (args @ [SynthCallback], Promise p)))"

text \<open>A direct call of a function, for comparison.\<close>

definition call_direct ::
  "(jsval \<Rightarrow> jsval list \<Rightarrow> effect) \<Rightarrow> jsval \<Rightarrow> jsval list \<Rightarrow> jsval list \<times> yield" where
  "call_direct run f args = (args, Plain (outcome (run f args)))"

text \<open>The first argument list with which the function reaches its callback, if any.\<close>

definition first_completion :: "effect \<Rightarrow> jsval list option" where
  "first_completion e =
     (case sync_calls e of
        received # rest \<Rightarrow> Some received
      | [] \<Rightarrow> (case outcome e of
                 Threw x \<Rightarrow> None
               | Returned v \<Rightarrow> (case later_calls e of received # rest \<Rightarrow> Some received | [] \<Rightarrow> None)))"

lemma name_results_keys:
  "fst ` set (name_results ns i rs acc) = set ns \<union> fst ` set acc"
  by (induction ns arbitrary: i acc) (auto simp: keys_put)

lemma name_results_other:
  "n \<notin> set ns \<Longrightarrow> prop_of (name_results ns i rs acc) n = prop_of acc n"
  by (induction ns arbitrary: i acc) (auto simp: prop_of_put)

lemma name_results_get:
  "distinct ns \<Longrightarrow> j < length ns \<Longrightarrow>
   prop_of (name_results ns i rs acc) (ns ! j) = elem rs (i + j)"
proof (induction ns arbitrary: i acc j)
  case Nil
  then show ?case by simp
next
  case (Cons n ns)
  show ?case
  proof (cases j)
    case 0
    with Cons.prems show ?thesis by (simp add: name_results_other prop_of_put)
  next
    case (Suc j')
    with Cons.prems Cons.IH [of j' "Suc i" "put acc n (elem rs i)"] show ?thesis by simp
  qed
qed

text \<open>The \<^verbatim>\<open>argNames\<close> of a conversion: absent, or an array of names.\<close>

definition names_arg :: "string list option \<Rightarrow> jsval" where
  "names_arg ns = (case ns of None \<Rightarrow> Undefined | Some names \<Rightarrow> Arr (map Str names))"

lemma synth_callback_names:
  "synth_callback (names_arg ns) received =
     Some (if truthy (elem received 0) then Rejected (elem received 0)
           else case ns of
                  Some names \<Rightarrow> Resolved (Obj (name_results names 0 (tl received) []))
                | None \<Rightarrow> Resolved (if length (tl received) > 1 then Arr (tl received)
                                      else elem (tl received) 0))"
  by (cases ns) (simp_all add: synth_callback_def names_arg_def Let_def list_all_iff comp_def)

lemma settle_first_completion:
  "first_completion e = Some received \<Longrightarrow> settle argNames e = synth_callback argNames received"
  by (auto simp: first_completion_def settle_def split: list.splits outcome.splits)

text \<open>
  Claim C3. A converted method is called without a trailing function, and the original
  reaches the synthesized callback, the first time, with \<open>received\<close>. Then the call
  hands the original its arguments with the callback appended and returns a promise. If
  the first received value is truthy, the promise is rejected with it. Otherwise it is
  fulfilled: with field names, by an object whose keys are the names and where each name
  (the names being distinct) has the result value at its position; without field names,
  by the array of all result values if there are several, by the single value if there
  is one, by undefined if there is none.
\<close>

theorem asyncified_promise_result:
  assumes "args = [] \<or> \<not> is_function (last args)"
    and "first_completion (run origFunc (args @ [SynthCallback])) = Some received"
  shows "\<exists>p. call_asyncified run origFunc (names_arg ns) args
               = Some (args @ [SynthCallback], Promise p) \<and>
     (truthy (elem received 0) \<longrightarrow> p = Rejected (elem received 0)) \<and>
     (\<not> truthy (elem received 0) \<longrightarrow>
        (case ns of
           Some names \<Rightarrow>
             (\<exists>kvs. p = Resolved (Obj kvs) \<and> fst ` set kvs = set names \<and>
                (distinct names \<longrightarrow>
                   (\<forall>i<length names. prop_of kvs (names ! i) = elem (tl received) i)))
         | None \<Rightarrow>
             (length (tl received) > 1 \<longrightarrow> p = Resolved (Arr (tl received))) \<and>
             (length (tl received) = 1 \<longrightarrow> p = Resolved (hd (tl received))) \<and>
             (tl received = [] \<longrightarrow> p = Resolved Undefined)))"
proof -
  let ?p = "if truthy (elem received 0) then Rejected (elem received 0)
           else case ns of
                  Some names \<Rightarrow> Resolved (Obj (name_results names 0 (tl received) []))
                | None \<Rightarrow> Resolved (if length (tl received) > 1 then Arr (tl received)
                                      else elem (tl received) 0)"
  from assms have call: "call_asyncified run origFunc (names_arg ns) args
      = Some (args @ [SynthCallback], Promise ?p)"
    by (auto simp: call_asyncified_def settle_first_completion synth_callback_names)
  have named: "fst ` set (name_results names 0 (tl received) []) = set names \<and>
      (distinct names \<longrightarrow>
         (\<forall>i<length names. prop_of (name_results names 0 (tl received) []) (names ! i)
            = elem (tl received) i))" for names
    using name_results_get [of names _ 0 "tl received" "[]"]
    by (simp add: name_results_keys)
  have single: "length (tl received) = 1 \<Longrightarrow> elem (tl received) 0 = hd (tl received)"
    by (cases "tl received") (simp_all add: elem_def)
  have none: "tl received = [] \<Longrightarrow> elem (tl received) 0 = Undefined"
    by (simp add: elem_def)
  show ?thesis
  proof (intro exI conjI)
    show "call_asyncified run origFunc (names_arg ns) args
      = Some (args @ [SynthCallback], Promise ?p)" by (rule call)
  next
    show "truthy (elem received 0) \<longrightarrow> ?p = Rejected (elem received 0)" by simp
  next
    show "\<not> truthy (elem received 0) \<longrightarrow>
        (case ns of
           Some names \<Rightarrow>
             (\<exists>kvs. ?p = Resolved (Obj kvs) \<and> fst ` set kvs = set names \<and>
                (distinct names \<longrightarrow>
                   (\<forall>i<length names. prop_of kvs (names ! i) = elem (tl received) i)))
         | None \<Rightarrow>
             (length (tl received) > 1 \<longrightarrow> ?p = Resolved (Arr (tl received))) \<and>
             (length (tl received) = 1 \<longrightarrow> ?p = Resolved (hd (tl received))) \<and>
             (tl received = [] \<longrightarrow> ?p = Resolved Undefined))"
      using named single none by (cases ns) auto
  qed
qed

text \<open>
  The method of the unit tests, \<^verbatim>\<open>pour(callback) { callback(null, 8, "oz"); }\<close>: it
  calls its last argument at once and returns undefined.
\<close>

definition pour :: jsval where
  "pour = Fn ''pour'' False ''pour(callback) {'' False"

definition run_pour :: "jsval \<Rightarrow> jsval list \<Rightarrow> effect" where
  "run_pour f args =
     \<lparr>sync_calls = [[Null, Num 8, Str ''oz'']], outcome = Returned Undefined, later_calls = []\<rparr>"

definition done_callback :: jsval where
  "done_callback = Fn ''done'' False ''function(err, amount, units) {'' False"

theorem asyncified_promise_result_witness:
  "first_completion (run_pour pour ([] @ [SynthCallback])) = Some [Null, Num 8, Str ''oz''] \<and>
   \<not> truthy (elem [Null, Num 8, Str ''oz''] 0) \<and> distinct [''amount'', ''units''] \<and>
   (\<exists>kvs. call_asyncified run_pour pour (names_arg (Some [''amount'', ''units''])) []
            = Some ([SynthCallback], Promise (Resolved (Obj kvs))) \<and>
          fst ` set kvs = {''amount'', ''units''} \<and>
          prop_of kvs ''amount'' = Num 8 \<and> prop_of kvs ''units'' = Str ''oz'')"
proof -
  have fc: "first_completion (run_pour pour ([] @ [SynthCallback])) = Some [Null, Num 8, Str ''oz'']"
    by (simp add: first_completion_def run_pour_def)
  have ok: "\<not> truthy (elem [Null, Num 8, Str ''oz''] 0)"
    by (simp add: elem_def)
  have d: "distinct [''amount'', ''units'']"
    by simp
  from asyncified_promise_result [of "[]" run_pour pour "[Null, Num 8, Str ''oz'']"
      "Some [''amount'', ''units'']", OF _ fc]
  obtain p where call: "call_asyncified run_pour pour (names_arg (Some [''amount'', ''units''])) []
      = Some ([] @ [SynthCallback], Promise p)"
    and res: "\<not> truthy (elem [Null, Num 8, Str ''oz''] 0) \<longrightarrow>
       (\<exists>kvs. p = Resolved (Obj kvs) \<and> fst ` set kvs = set [''amount'', ''units''] \<and>
          (distinct [''amount'', ''units''] \<longrightarrow>
             (\<forall>i<length [''amount'', ''units''].
                prop_of kvs ([''amount'', ''units''] ! i) = elem (tl [Null, Num 8, Str ''oz'']) i)))"
    by force
  from res ok d obtain kvs where p: "p = Resolved (Obj kvs)"
    and keys: "fst ` set kvs = set [''amount'', ''units'']"
    and vals: "\<forall>i<length [''amount'', ''units''].
                prop_of kvs ([''amount'', ''units''] ! i) = elem (tl [Null, Num 8, Str ''oz'']) i"
    by blast
  have "(0::nat) < length [''amount'', ''units'']" and "(1::nat) < length [''amount'', ''units'']"
    by simp_all
  with vals have "prop_of kvs ([''amount'', ''units''] ! 0) = elem (tl [Null, Num 8, Str ''oz'']) 0"
    and "prop_of kvs ([''amount'', ''units''] ! 1) = elem (tl [Null, Num 8, Str ''oz'']) 1"
    by blast+
  then have v: "prop_of kvs ''amount'' = Num 8" "prop_of kvs ''units'' = Str ''oz''"
    by (simp_all add: elem_def)
  from call p have c: "call_asyncified run_pour pour (names_arg (Some [''amount'', ''units''])) []
            = Some ([SynthCallback], Promise (Resolved (Obj kvs)))"
    by simp
  from keys have k: "fst ` set kvs = {''amount'', ''units''}"
    by simp
  from fc ok d c k v show ?thesis by blast
qed

text \<open>The two results of the unit tests, computed.\<close>

lemma pour_named: "call_asyncified run_pour pour (Arr [Str ''amount'', Str ''units'']) []
  = Some ([SynthCallback], Promise (Resolved (Obj [(''amount'', Num 8), (''units'', Str ''oz'')])))"
  by (simp add: call_asyncified_def settle_def run_pour_def synth_callback_def elem_def)

lemma pour_unnamed: "call_asyncified run_pour pour Undefined []
  = Some ([SynthCallback], Promise (Resolved (Arr [Num 8, Str ''oz''])))"
  by (simp add: call_asyncified_def settle_def run_pour_def synth_callback_def elem_def)

text \<open>
  Claim C6, as amended. A converted method called with a function as its last argument
  calls the original with exactly these arguments: nothing is appended, and the field
  names play no part. The converted method being an \<^verbatim>\<open>async function\<close>, its caller
  still gets a promise: fulfilled with what the original returned, rejected with what it
  threw.
\<close>

theorem asyncified_with_callback:
  assumes "args \<noteq> []" and "is_function (last args)"
  shows "call_asyncified run origFunc argNames args =
           Some (args, Promise (case outcome (run origFunc args) of
                                  Returned v \<Rightarrow> Resolved v | Threw x \<Rightarrow> Rejected x)) \<and>
         fst (the (call_asyncified run origFunc argNames args)) = fst (call_direct run origFunc args)"
  using assms by (simp add: call_asyncified_def call_direct_def)

theorem asyncified_with_callback_witness:
  "[done_callback] \<noteq> [] \<and> is_function (last [done_callback]) \<and>
   call_asyncified run_pour pour Undefined [done_callback]
     = Some ([done_callback], Promise (Resolved Undefined))"
  using asyncified_with_callback [of "[done_callback]" run_pour pour Undefined]
  by (simp add: done_callback_def run_pour_def)

text \<open>
  Claim C6 as it is written: the call through the converted method is not the same as
  the direct call, since its caller gets a promise where the direct caller gets the
  plain return value.
\<close>

theorem asyncified_with_callback_counterexample:
  "is_function (last [done_callback]) \<and>
   call_asyncified run_pour pour Undefined [done_callback]
     \<noteq> Some (call_direct run_pour pour [done_callback])"
  by (simp add: call_asyncified_def call_direct_def done_callback_def run_pour_def)


section \<open>The asyncify pass, step by step\<close>

text \<open>
  Every loop body of the pass has one shape: if the value under the key passes a test
  and is unconverted, it is replaced by its conversion. \<open>conv_step\<close> is that shape,
  with the test \<open>P\<close> and the result names \<open>N\<close> left open.
\<close>

definition conv_step ::
  "(string \<Rightarrow> jsval \<Rightarrow> bool) \<Rightarrow> (string \<Rightarrow> jsval) \<Rightarrow> string \<Rightarrow> construct \<Rightarrow> construct" where
  "conv_step P N k c =
     (if P k (proto_get c k) \<and> unconverted (proto_get c k) then convert (N k) k c else c)"

lemma asyncify_matching_conv:
  "asyncify_matching m = conv_step (\<lambda>k v. \<not> skipped_member k \<and> is_function v \<and> m k) (\<lambda>k. Undefined)"
  by (auto simp: fun_eq_iff asyncify_matching_def conv_step_def)

lemma asyncify_sniffed_conv:
  "asyncify_sniffed =
     conv_step (\<lambda>k v. \<not> skipped_member k \<and> is_function v \<and> sniff_callback (to_source v))
       (\<lambda>k. Undefined)"
  by (auto simp: fun_eq_iff asyncify_sniffed_def conv_step_def)

lemma asyncify_mapped_conv:
  "asyncify_mapped kvs = conv_step (\<lambda>k v. truthy v) (prop_of kvs)"
  by (auto simp: fun_eq_iff asyncify_mapped_def conv_step_def)

lemma fold_asyncify_named_conv:
  "fold asyncify_named ks c =
     fold (conv_step (\<lambda>k v. truthy v) (\<lambda>k. Undefined)) (List.map_filter to_key ks) c"
proof (induction ks arbitrary: c)
  case Nil
  then show ?case by (simp add: List.map_filter_simps)
next
  case (Cons a ks)
  then show ?case
    by (cases "to_key a") (simp_all add: List.map_filter_simps asyncify_named_def conv_step_def)
qed

lemma convert_get:
  "proto_get (convert names k' c) k =
     (if k = k' then Wrapper (proto_get c k') names True else proto_get c k)"
  by (simp add: convert_def asyncify_def proto_get_proto_set)

lemma unconverted_Wrapper [simp]: "\<not> unconverted (Wrapper f n m)"
  by (simp add: unconverted_def)

lemma conv_step_get:
  "proto_get (conv_step P N k' c) k =
     (if k = k' \<and> P k (proto_get c k) \<and> unconverted (proto_get c k)
      then Wrapper (proto_get c k) (N k) True else proto_get c k)"
  by (simp add: conv_step_def convert_get)

lemma fold_conv_step_get:
  "proto_get (fold (conv_step P N) ks c) k =
     (if k \<in> set ks \<and> P k (proto_get c k) \<and> unconverted (proto_get c k)
      then Wrapper (proto_get c k) (N k) True else proto_get c k)"
proof (induction ks arbitrary: c)
  case Nil
  then show ?case by simp
next
  case (Cons a ks)
  show ?case
    by (simp add: Cons.IH conv_step_get)
qed

lemma fold_conv_step_id:
  "\<forall>k\<in>set ks. \<not> (P k (proto_get c k) \<and> unconverted (proto_get c k)) \<Longrightarrow>
   fold (conv_step P N) ks c = c"
  by (induction ks) (auto simp: conv_step_def)

lemma conv_step_keys:
  "fst ` set (proto_own (conv_step P N k c)) \<subseteq> insert k (fst ` set (proto_own c))"
  by (auto simp: conv_step_def convert_def proto_set_def keys_put)

lemma fold_conv_step_keys:
  "fst ` set (proto_own (fold (conv_step P N) ks c)) \<subseteq> set ks \<union> fst ` set (proto_own c)"
proof (induction ks arbitrary: c)
  case Nil
  then show ?case by simp
next
  case (Cons a ks)
  from Cons.IH [of "conv_step P N a c"] conv_step_keys [of P N a c]
  show ?case by auto
qed

lemma fold_conv_step_twice:
  assumes "set ks' \<subseteq> set ks"
  shows "fold (conv_step P N) ks' (fold (conv_step P N) ks c) = fold (conv_step P N) ks c"
proof (rule fold_conv_step_id, rule ballI)
  fix k assume "k \<in> set ks'"
  with assms have "k \<in> set ks" by auto
  then show "\<not> (P k (proto_get (fold (conv_step P N) ks c) k)
      \<and> unconverted (proto_get (fold (conv_step P N) ks c) k))"
    by (simp add: fold_conv_step_get)
qed

lemma fold_conv_step_own_twice:
  "fold (conv_step P N) (map fst (proto_own (fold (conv_step P N) (map fst (proto_own c)) c)))
     (fold (conv_step P N) (map fst (proto_own c)) c)
   = fold (conv_step P N) (map fst (proto_own c)) c"
  using fold_conv_step_keys [of P N "map fst (proto_own c)" c]
  by (intro fold_conv_step_twice) auto

lemma asyncify_pass_idem:
  "asyncify_pass rx a (asyncify_pass rx a c) = asyncify_pass rx a c"
proof (cases "truthy a")
  case False
  then show ?thesis by (simp add: asyncify_pass_def)
next
  case True
  show ?thesis
  proof (cases "is_object a")
    case False
    with True show ?thesis
      by (simp add: asyncify_pass_def asyncify_sniffed_conv fold_conv_step_own_twice)
  next
    case obj: True
    with True show ?thesis
      by (cases a)
        (simp_all add: asyncify_pass_def asyncify_matching_conv asyncify_mapped_conv
          fold_asyncify_named_conv fold_conv_step_own_twice fold_conv_step_twice)
  qed
qed

lemma asyncify_pass_get:
  "proto_get (asyncify_pass rx a c) k = proto_get c k \<or>
   (unconverted (proto_get c k) \<and>
    (\<exists>names. proto_get (asyncify_pass rx a c) k = Wrapper (proto_get c k) names True))"
proof (cases "truthy a")
  case False
  then show ?thesis by (simp add: asyncify_pass_def)
next
  case True
  show ?thesis
  proof (cases "is_object a")
    case False
    with True show ?thesis
      by (simp add: asyncify_pass_def asyncify_sniffed_conv fold_conv_step_get)
  next
    case obj: True
    with True show ?thesis
      by (cases a)
        (simp_all add: asyncify_pass_def asyncify_matching_conv asyncify_mapped_conv
          fold_asyncify_named_conv fold_conv_step_get)
  qed
qed

lemma asyncify_pass_keeps:
  "\<not> unconverted (proto_get c k) \<Longrightarrow> proto_get (asyncify_pass rx a c) k = proto_get c k"
  using asyncify_pass_get [of rx a c k] by auto

section \<open>A converted method through a whole augmentation\<close>

lemma put_put: "put (put ps k v) k w = put ps k w"
  by (induction ps) auto

lemma proto_get_in_proto: "proto_get c k \<noteq> Undefined \<Longrightarrow> in_proto c k"
  by (auto simp: proto_get_def in_proto_def has_key_map_of split: option.splits)

lemma prop_of_has_key: "prop_of ps k \<noteq> Undefined \<Longrightarrow> has_key ps k"
  by (auto simp: prop_of_def has_key_map_of split: option.splits)

lemma static_pass_get: "proto_get (static_pass st c) k = proto_get c k"
proof -
  have "proto_get (fold (assign_static st) ks c) k = proto_get c k" for ks
    by (induction ks arbitrary: c) (simp_all add: assign_static_def proto_get_static_set)
  then show ?thesis by (simp add: static_pass_def)
qed

lemma fold_copy_arg_get:
  "proto_get (fold (copy_arg args) ks c) k =
     (if k \<in> set ks \<and> \<not> meta_key k then prop_of args k else proto_get c k)"
  by (induction ks arbitrary: c) (auto simp: copy_arg_def proto_get_proto_set)

lemma instance_defaults_get:
  "proto_get (instance_defaults args c) k =
     (if has_key args k \<and> \<not> meta_key k then prop_of args k else proto_get c k)"
  by (simp add: instance_defaults_def fold_copy_arg_get has_key_def)

lemma finalize_hooks_get:
  "finalize_hooks args c = Inr c' \<Longrightarrow>
   proto_get c' k =
     (if k = ''fireHook'' \<and> truthy (prop_of args ''__hooks'') \<and> \<not> async_marker (proto_get c k)
      then Wrapper (proto_get c k) Undefined True else proto_get c k)"
  by (auto simp: finalize_hooks_def convert_get split: if_splits)

lemma unshift_args:
  "unshift x (args, b) = Inr (args', b') \<Longrightarrow>
   args' = args \<or> (\<exists>xs ys. prop_of args ''__mixins'' = Arr xs \<and> args' = put args ''__mixins'' (Arr ys))"
  by (cases b) (auto split: jsval.splits)

lemma assemble_mixins_args:
  assumes "assemble_mixins EE args = Inr (args', b)"
  shows "args' = args \<or>
     (\<exists>xs ys. prop_of args ''__mixins'' = Arr xs \<and> args' = put args ''__mixins'' (Arr ys))"
proof (cases "truthy (prop_of args ''__events'')")
  case False
  with assms show ?thesis
    by (auto simp: assemble_mixins_def split: if_splits dest: unshift_args)
next
  case True
  with assms obtain a1 b1 where u1: "unshift EE (args, bind_mixins args) = Inr (a1, b1)"
    and u2: "(if truthy (prop_of args ''__hooks'') then unshift HookHelper (a1, b1) else Inr (a1, b1))
               = Inr (args', b)"
    by (auto simp: assemble_mixins_def split: sum.splits)
  from unshift_args [OF u1] consider "a1 = args"
    | xs ys where "prop_of args ''__mixins'' = Arr xs" "a1 = put args ''__mixins'' (Arr ys)"
    by blast
  then show ?thesis
  proof cases
    case 1
    with u2 show ?thesis by (auto split: if_splits dest: unshift_args)
  next
    case 2
    show ?thesis
    proof (cases "truthy (prop_of args ''__hooks'')")
      case False
      with u2 2 show ?thesis by auto
    next
      case True
      with u2 have "unshift HookHelper (a1, b1) = Inr (args', b)" by simp
      from unshift_args [OF this] 2 show ?thesis
        by (auto simp: prop_of_put put_put)
    qed
  qed
qed

lemma Class_outcomes:
  fixes rx EE args obj
  defines "c2 \<equiv> asyncify_pass rx (prop_of args ''__asyncify'') (static_pass (prop_of args ''__static'') obj)"
  shows "(\<exists>e. Class rx EE args obj = (args, c2, Some e) \<and> assemble_mixins EE args = Inl e) \<or>
   (\<exists>args' b. assemble_mixins EE args = Inr (args', b) \<and>
      ((\<exists>e. Class rx EE args obj = (args', c2, Some e)) \<or>
       (\<exists>ms e. mixins_elems (args', b) = Inr ms \<and>
          Class rx EE args obj = (args', fst (merge_mixins ms c2), Some e)) \<or>
       (\<exists>ms c4. mixins_elems (args', b) = Inr ms \<and>
          merge_mixins ms c2 = (fst (merge_mixins ms c2), None) \<and>
          finalize_hooks args' (fst (merge_mixins ms c2)) = Inr c4 \<and>
          Class rx EE args obj = (args', instance_defaults args' c4, None))))"
proof (cases "assemble_mixins EE args")
  case (Inl e)
  then show ?thesis by (simp add: Class_def c2_def)
next
  case (Inr ab)
  obtain args' b where ab: "ab = (args', b)" by (cases ab)
  show ?thesis
  proof (cases "mixins_elems (args', b)")
    case (Inl e)
    with Inr ab show ?thesis by (simp add: Class_def c2_def)
  next
    case ms: (Inr ms)
    obtain c3 r where m: "merge_mixins ms c2 = (c3, r)" by (cases "merge_mixins ms c2")
    then have c3: "c3 = fst (merge_mixins ms c2)" by simp
    show ?thesis
    proof (cases r)
      case (Some e)
      with Inr ab ms m have "Class rx EE args obj = (args', c3, Some e)"
        by (simp add: Class_def c2_def)
      with Inr ab c3 ms show ?thesis by blast
    next
      case None
      show ?thesis
      proof (cases "finalize_hooks args' c3")
        case (Inl e)
        with Inr ab ms m None have "Class rx EE args obj = (args', c3, Some e)"
          by (simp add: Class_def c2_def)
        with Inr ab c3 ms show ?thesis by blast
      next
        case f: (Inr c4)
        with Inr ab ms m None have "Class rx EE args obj = (args', instance_defaults args' c4, None)"
          by (simp add: Class_def c2_def)
        moreover from m None c3 have "merge_mixins ms c2 = (fst (merge_mixins ms c2), None)"
          by simp
        moreover from f c3 have "finalize_hooks args' (fst (merge_mixins ms c2)) = Inr c4"
          by simp
        ultimately show ?thesis using Inr ab ms by blast
      qed
    qed
  qed
qed

lemma Class_keeps_converted:
  assumes w: "proto_get obj k = Wrapper f n True"
    and a: "has_key (fst (Class rx EE args obj)) k \<and> \<not> meta_key k \<longrightarrow>
              prop_of (fst (Class rx EE args obj)) k = Wrapper f n True"
  shows "proto_get (fst (snd (Class rx EE args obj))) k = Wrapper f n True"
proof -
  define c2 where "c2 = asyncify_pass rx (prop_of args ''__asyncify'') (static_pass (prop_of args ''__static'') obj)"
  from w have q2: "proto_get c2 k = Wrapper f n True"
    by (simp add: c2_def asyncify_pass_keeps static_pass_get)
  then have "in_proto c2 k" by (simp add: proto_get_in_proto)
  then have q3: "proto_get (fst (merge_mixins ms c2)) k = Wrapper f n True" for ms
    using q2 by (simp add: merge_mixins_keeps_proto)
  have q4: "proto_get c4 k = Wrapper f n True"
    if "finalize_hooks args' (fst (merge_mixins ms c2)) = Inr c4" for args' ms c4
    using finalize_hooks_get [OF that, of k] q3 [of ms] by simp
  from Class_outcomes [of rx EE args obj] show ?thesis
    unfolding c2_def [symmetric]
  proof (elim disjE exE conjE)
    fix e assume "Class rx EE args obj = (args, c2, Some e)"
    with q2 show ?thesis by simp
  next
    fix args' b e assume "Class rx EE args obj = (args', c2, Some e)"
    with q2 show ?thesis by simp
  next
    fix args' b ms e assume "Class rx EE args obj = (args', fst (merge_mixins ms c2), Some e)"
    with q3 show ?thesis by simp
  next
    fix args' b ms c4
    assume f: "finalize_hooks args' (fst (merge_mixins ms c2)) = Inr c4"
      and c: "Class rx EE args obj = (args', instance_defaults args' c4, None)"
    from a c have "has_key args' k \<and> \<not> meta_key k \<longrightarrow> prop_of args' k = Wrapper f n True"
      by simp
    with q4 [OF f] c show ?thesis by (simp add: instance_defaults_get)
  qed
qed

lemma Class_args:
  "fst (Class rx EE args obj) = args \<or>
   (\<exists>xs ys. prop_of args ''__mixins'' = Arr xs \<and>
      fst (Class rx EE args obj) = put args ''__mixins'' (Arr ys))"
  using Class_outcomes [of rx EE args obj]
  by (elim disjE exE conjE) (auto dest: assemble_mixins_args)

lemma Class_defaults:
  assumes "Class rx EE args obj = (args', c', None)"
    and "has_key args' k" and "\<not> meta_key k"
  shows "proto_get c' k = prop_of args' k"
  using Class_outcomes [of rx EE args obj] assms
  by (elim disjE exE conjE) (auto simp: instance_defaults_get)

subsection \<open>Never wrapped twice\<close>

fun is_wrapper :: "jsval \<Rightarrow> bool" where
  "is_wrapper (Wrapper f n m) = True"
| "is_wrapper v = False"

text \<open>How many conversions a value is wrapped in.\<close>

fun wrap_depth :: "jsval \<Rightarrow> nat" where
  "wrap_depth (Wrapper f n m) = Suc (wrap_depth f)"
| "wrap_depth v = 0"

text \<open>A value is in order when it is wrapped at most once and, if wrapped, carries the marker.\<close>

definition single_wrapped :: "jsval \<Rightarrow> bool" where
  "single_wrapped v = (wrap_depth v \<le> 1 \<and> (is_wrapper v \<longrightarrow> async_marker v))"

text \<open>A mixin is in order when the members of its prototype are.\<close>

definition mixin_clean :: "jsval \<Rightarrow> bool" where
  "mixin_clean m =
     (case mixin_parts m of Inr (p, s) \<Rightarrow> list_all single_wrapped (map snd p) | Inl e \<Rightarrow> True)"

definition mixins_clean :: "props \<Rightarrow> bool" where
  "mixins_clean args =
     (case prop_of args ''__mixins'' of Arr ms \<Rightarrow> list_all mixin_clean ms | v \<Rightarrow> True)"

lemma single_wrapped_simps [simp]:
  "single_wrapped Undefined" "single_wrapped (Arr xs)"
  by (simp_all add: single_wrapped_def)

lemma single_wrapped_convert:
  "single_wrapped v \<Longrightarrow> \<not> async_marker v \<or> \<not> is_async_function v \<Longrightarrow>
   single_wrapped (Wrapper v names True)"
  by (cases v) (auto simp: single_wrapped_def)

lemma prop_of_single_wrapped:
  "list_all single_wrapped (map snd ps) \<Longrightarrow> single_wrapped (prop_of ps k)"
proof -
  assume a: "list_all single_wrapped (map snd ps)"
  show ?thesis
  proof (cases "map_of ps k")
    case None
    then show ?thesis by (simp add: prop_of_def)
  next
    case (Some v)
    then have "(k, v) \<in> set ps" by (rule map_of_SomeD)
    with a have "single_wrapped v" by (auto simp: list_all_iff)
    with Some show ?thesis by (simp add: prop_of_def)
  qed
qed

lemma proto_get_single_wrapped:
  "list_all single_wrapped (map snd (proto_own c @ proto_chain c)) \<Longrightarrow>
   single_wrapped (proto_get c k)"
proof -
  assume a: "list_all single_wrapped (map snd (proto_own c @ proto_chain c))"
  have "proto_get c k = prop_of (proto_own c @ proto_chain c) k"
    by (simp add: proto_get_def prop_of_def map_add_def split: option.splits)
  with prop_of_single_wrapped [OF a, of k] show ?thesis by simp
qed

lemma asyncify_pass_single_wrapped:
  "single_wrapped (proto_get c k) \<Longrightarrow> single_wrapped (proto_get (asyncify_pass rx a c) k)"
  using asyncify_pass_get [of rx a c k]
  by (auto simp: unconverted_def intro: single_wrapped_convert)

lemma fold_merge_member_single_wrapped:
  "\<forall>k. single_wrapped (proto_get c k) \<Longrightarrow> \<forall>k. single_wrapped (prop_of p k) \<Longrightarrow>
   \<forall>k. single_wrapped (proto_get (fold (merge_member p) ks c) k)"
  by (induction ks arbitrary: c) (simp_all add: merge_member_def proto_get_proto_set)

lemma merge_one_single_wrapped:
  "\<forall>k. single_wrapped (proto_get c k) \<Longrightarrow> \<forall>k. single_wrapped (prop_of p k) \<Longrightarrow>
   \<forall>k. single_wrapped (proto_get (merge_one p s c) k)"
  by (simp add: merge_one_def fold_merge_static_proto fold_merge_member_single_wrapped)

lemma merge_mixins_single_wrapped:
  "\<forall>k. single_wrapped (proto_get c k) \<Longrightarrow> list_all mixin_clean ms \<Longrightarrow>
   \<forall>k. single_wrapped (proto_get (fst (merge_mixins ms c)) k)"
proof (induction ms arbitrary: c)
  case Nil
  then show ?case by simp
next
  case (Cons m ms)
  show ?case
  proof (cases "mixin_parts m")
    case (Inl e)
    with Cons.prems show ?thesis by simp
  next
    case (Inr ps)
    obtain p s where ps: "ps = (p, s)" by (cases ps)
    with Inr Cons.prems have "list_all single_wrapped (map snd p)"
      by (simp add: mixin_clean_def)
    then have "\<forall>k. single_wrapped (prop_of p k)"
      by (simp add: prop_of_single_wrapped)
    with Cons.prems have "\<forall>k. single_wrapped (proto_get (merge_one p s c) k)"
      by (simp add: merge_one_single_wrapped)
    with Cons.IH [of "merge_one p s c"] Cons.prems Inr ps show ?thesis by simp
  qed
qed

lemma finalize_hooks_single_wrapped:
  assumes "finalize_hooks args c = Inr c'" and "\<forall>k. single_wrapped (proto_get c k)"
  shows "\<forall>k. single_wrapped (proto_get c' k)"
proof
  fix k
  from assms(2) have "single_wrapped (proto_get c k)" by simp
  with finalize_hooks_get [OF assms(1), of k] show "single_wrapped (proto_get c' k)"
    by (auto intro: single_wrapped_convert)
qed

lemma mixin_clean_HookHelper: "mixin_clean HookHelper"
  by (simp add: mixin_clean_def HookHelper_def single_wrapped_def)

lemma unshift_clean:
  assumes "unshift x (args, b) = Inr (args', b')"
    and "mixin_clean x" and "\<forall>k. single_wrapped (prop_of args k)" and "mixins_clean args"
    and "\<forall>ms. mixins_elems (args, b) = Inr ms \<longrightarrow> list_all mixin_clean ms"
  shows "(\<forall>k. single_wrapped (prop_of args' k)) \<and> mixins_clean args' \<and>
         (\<forall>ms'. mixins_elems (args', b') = Inr ms' \<longrightarrow> list_all mixin_clean ms')"
proof (cases b)
  case (Fresh xs)
  with assms show ?thesis by auto
next
  case Aliased
  with assms(1) obtain xs where x: "prop_of args ''__mixins'' = Arr xs"
    and a: "args' = put args ''__mixins'' (Arr (x # xs))" and b: "b' = Aliased"
    by (auto split: jsval.splits)
  from assms(4) x have "list_all mixin_clean xs" by (simp add: mixins_clean_def)
  with a b assms(2,3) show ?thesis
    by (auto simp: prop_of_put mixins_clean_def)
qed

lemma bind_mixins_clean:
  "mixins_clean args \<Longrightarrow>
   \<forall>ms. mixins_elems (args, bind_mixins args) = Inr ms \<longrightarrow> list_all mixin_clean ms"
  by (auto simp: bind_mixins_def mixins_clean_def split: jsval.splits)

lemma assemble_mixins_clean:
  assumes a: "assemble_mixins EE args = Inr (args', b)"
    and ee: "mixin_clean EE" and v: "\<forall>k. single_wrapped (prop_of args k)"
    and m: "mixins_clean args"
  shows "(\<forall>k. single_wrapped (prop_of args' k)) \<and> mixins_clean args' \<and>
         (\<forall>ms. mixins_elems (args', b) = Inr ms \<longrightarrow> list_all mixin_clean ms)"
proof -
  obtain a1 b1 where s1: "(if truthy (prop_of args ''__events'')
            then unshift EE (args, bind_mixins args)
            else Inr (args, bind_mixins args)) = Inr (a1, b1)"
    and s2: "(if truthy (prop_of args ''__hooks'') then unshift HookHelper (a1, b1) else Inr (a1, b1))
               = Inr (args', b)"
    using a by (auto simp: assemble_mixins_def split: sum.splits)
  have c1: "(\<forall>k. single_wrapped (prop_of a1 k)) \<and> mixins_clean a1 \<and>
         (\<forall>ms. mixins_elems (a1, b1) = Inr ms \<longrightarrow> list_all mixin_clean ms)"
  proof (cases "truthy (prop_of args ''__events'')")
    case True
    with s1 have "unshift EE (args, bind_mixins args) = Inr (a1, b1)" by simp
    from unshift_clean [OF this ee v m bind_mixins_clean [OF m]] show ?thesis .
  next
    case False
    with s1 v m bind_mixins_clean [OF m] show ?thesis by auto
  qed
  show ?thesis
  proof (cases "truthy (prop_of args ''__hooks'')")
    case True
    with s2 have "unshift HookHelper (a1, b1) = Inr (args', b)" by simp
    from unshift_clean [OF this mixin_clean_HookHelper] c1 show ?thesis by blast
  next
    case False
    with s2 c1 show ?thesis by auto
  qed
qed

lemma Class_single_wrapped:
  assumes o: "\<forall>k. single_wrapped (proto_get obj k)"
    and v: "\<forall>k. single_wrapped (prop_of args k)"
    and m: "mixins_clean args" and ee: "mixin_clean EE"
  shows "(\<forall>k. single_wrapped (proto_get (fst (snd (Class rx EE args obj))) k)) \<and>
         (\<forall>k. single_wrapped (prop_of (fst (Class rx EE args obj)) k)) \<and>
         mixins_clean (fst (Class rx EE args obj))"
proof -
  define c2 where "c2 = asyncify_pass rx (prop_of args ''__asyncify'') (static_pass (prop_of args ''__static'') obj)"
  from o have q2: "\<forall>k. single_wrapped (proto_get c2 k)"
    by (simp add: c2_def asyncify_pass_single_wrapped static_pass_get)
  from Class_outcomes [of rx EE args obj] show ?thesis
    unfolding c2_def [symmetric]
  proof (elim disjE exE conjE)
    fix e assume "Class rx EE args obj = (args, c2, Some e)"
    with q2 v m show ?thesis by simp
  next
    fix args' b e
    assume a: "assemble_mixins EE args = Inr (args', b)"
      and c: "Class rx EE args obj = (args', c2, Some e)"
    from assemble_mixins_clean [OF a ee v m] q2 c show ?thesis by simp
  next
    fix args' b ms e
    assume a: "assemble_mixins EE args = Inr (args', b)"
      and ms: "mixins_elems (args', b) = Inr ms"
      and c: "Class rx EE args obj = (args', fst (merge_mixins ms c2), Some e)"
    from assemble_mixins_clean [OF a ee v m] ms have "list_all mixin_clean ms" by blast
    with q2 have "\<forall>k. single_wrapped (proto_get (fst (merge_mixins ms c2)) k)"
      by (rule merge_mixins_single_wrapped)
    with assemble_mixins_clean [OF a ee v m] c show ?thesis by simp
  next
    fix args' b ms c4
    assume a: "assemble_mixins EE args = Inr (args', b)"
      and ms: "mixins_elems (args', b) = Inr ms"
      and f: "finalize_hooks args' (fst (merge_mixins ms c2)) = Inr c4"
      and c: "Class rx EE args obj = (args', instance_defaults args' c4, None)"
    from assemble_mixins_clean [OF a ee v m] ms have "list_all mixin_clean ms" by blast
    with q2 have "\<forall>k. single_wrapped (proto_get (fst (merge_mixins ms c2)) k)"
      by (rule merge_mixins_single_wrapped)
    with f have "\<forall>k. single_wrapped (proto_get c4 k)"
      by (rule finalize_hooks_single_wrapped)
    with assemble_mixins_clean [OF a ee v m] c show ?thesis
      by (simp add: instance_defaults_get)
  qed
qed

lemma never_wrapped_twice:
  assumes "list_all single_wrapped (map snd (proto_own obj @ proto_chain obj))"
    and "list_all single_wrapped (map snd args)"
    and "mixins_clean args" and "mixin_clean EventEmitter"
  shows "wrap_depth (proto_get (fst (snd (Class rx EventEmitter args obj))) k) \<le> 1 \<and>
         wrap_depth (proto_get (fst (snd (Class rx EventEmitter
            (fst (Class rx EventEmitter args obj))
            (fst (snd (Class rx EventEmitter args obj)))))) k) \<le> 1"
proof -
  from assms(1) have o: "\<forall>k. single_wrapped (proto_get obj k)"
    by (simp add: proto_get_single_wrapped)
  from assms(2) have v: "\<forall>k. single_wrapped (prop_of args k)"
    by (simp add: prop_of_single_wrapped)
  note one = Class_single_wrapped [OF o v assms(3,4), of rx]
  from one have o1: "\<forall>k. single_wrapped (proto_get (fst (snd (Class rx EventEmitter args obj))) k)"
    and v1: "\<forall>k. single_wrapped (prop_of (fst (Class rx EventEmitter args obj)) k)"
    and m1: "mixins_clean (fst (Class rx EventEmitter args obj))"
    by blast+
  note two = Class_single_wrapped [OF o1 v1 m1 assms(4), of rx]
  from o1 two show ?thesis by (simp add: single_wrapped_def)
qed

text \<open>
  The asyncify pass run a second time with the same selection changes nothing.
  What the pass does to the value under a key is either nothing, or the conversion of a
  value that had no marker and was not an async function, and the conversion carries the
  marker; a natively asynchronous method is left as it is. And for two whole
  augmentations with the same configuration, the second given what the first left: a
  method that is a marked conversion after the first is the same after the second, and
  if no value of the class, the configuration and the mixins was wrapped twice or wrapped
  without marker before, no member of the prototype is wrapped twice after the first or
  after the second.
\<close>

lemma converted_once:
  "asyncify_pass rx a (asyncify_pass rx a c) = asyncify_pass rx a c \<and>
   (proto_get (asyncify_pass rx a c) k = proto_get c k \<or>
    (\<not> async_marker (proto_get c k) \<and> \<not> is_async_function (proto_get c k) \<and>
     (\<exists>names. proto_get (asyncify_pass rx a c) k = Wrapper (proto_get c k) names True))) \<and>
   (is_async_function (proto_get c k) \<longrightarrow> proto_get (asyncify_pass rx a c) k = proto_get c k) \<and>
   (Class rx EventEmitter args obj = (args1, obj1, None) \<and> proto_get obj1 k2 = Wrapper f names True
      \<longrightarrow> proto_get (fst (snd (Class rx EventEmitter args1 obj1))) k2 = Wrapper f names True) \<and>
   (list_all single_wrapped (map snd (proto_own obj @ proto_chain obj)) \<and>
    list_all single_wrapped (map snd args) \<and> mixins_clean args \<and> mixin_clean EventEmitter
      \<longrightarrow> wrap_depth (proto_get (fst (snd (Class rx EventEmitter args obj))) k3) \<le> 1 \<and>
          wrap_depth (proto_get (fst (snd (Class rx EventEmitter
            (fst (Class rx EventEmitter args obj))
            (fst (snd (Class rx EventEmitter args obj)))))) k3) \<le> 1)"
proof (intro conjI impI)
  assume "list_all single_wrapped (map snd (proto_own obj @ proto_chain obj)) \<and>
    list_all single_wrapped (map snd args) \<and> mixins_clean args \<and> mixin_clean EventEmitter"
  then have w: "wrap_depth (proto_get (fst (snd (Class rx EventEmitter args obj))) k3) \<le> 1 \<and>
          wrap_depth (proto_get (fst (snd (Class rx EventEmitter
            (fst (Class rx EventEmitter args obj))
            (fst (snd (Class rx EventEmitter args obj)))))) k3) \<le> 1"
    by (intro never_wrapped_twice) simp_all
  from w show "wrap_depth (proto_get (fst (snd (Class rx EventEmitter args obj))) k3) \<le> 1"
    by simp
  from w show "wrap_depth (proto_get (fst (snd (Class rx EventEmitter
            (fst (Class rx EventEmitter args obj))
            (fst (snd (Class rx EventEmitter args obj)))))) k3) \<le> 1"
    by simp
next
  show "asyncify_pass rx a (asyncify_pass rx a c) = asyncify_pass rx a c"
    by (rule asyncify_pass_idem)
next
  show "proto_get (asyncify_pass rx a c) k = proto_get c k \<or>
    (\<not> async_marker (proto_get c k) \<and> \<not> is_async_function (proto_get c k) \<and>
     (\<exists>names. proto_get (asyncify_pass rx a c) k = Wrapper (proto_get c k) names True))"
    using asyncify_pass_get [of rx a c k] by (auto simp: unconverted_def)
next
  assume "is_async_function (proto_get c k)"
  then show "proto_get (asyncify_pass rx a c) k = proto_get c k"
    by (simp add: asyncify_pass_keeps unconverted_def)
next
  assume h: "Class rx EventEmitter args obj = (args1, obj1, None) \<and>
    proto_get obj1 k2 = Wrapper f names True"
  let ?args2 = "fst (Class rx EventEmitter args1 obj1)"
  have "prop_of ?args2 k2 = Wrapper f names True" if k: "has_key ?args2 k2" "\<not> meta_key k2"
  proof -
    from Class_args [of rx EventEmitter args1 obj1]
    consider "?args2 = args1"
      | xs ys where "prop_of args1 ''__mixins'' = Arr xs" "?args2 = put args1 ''__mixins'' (Arr ys)"
      by blast
    then show ?thesis
    proof cases
      case 1
      with k h Class_defaults [of rx EventEmitter args obj args1 obj1 k2] show ?thesis by simp
    next
      case 2
      then have hk: "has_key args1 ''__mixins''" by (simp add: prop_of_has_key)
      have nm: "\<not> meta_key ''__mixins''" by (simp add: meta_key_def)
      from h hk nm Class_defaults [of rx EventEmitter args obj args1 obj1 "''__mixins''"]
      have "proto_get obj1 ''__mixins'' = prop_of args1 ''__mixins''" by simp
      with 2 h have ne: "k2 \<noteq> ''__mixins''" by auto
      with k 2 have "has_key args1 k2" by (simp add: has_key_put)
      with k h Class_defaults [of rx EventEmitter args obj args1 obj1 k2]
      have "prop_of args1 k2 = Wrapper f names True" by simp
      with 2 ne show ?thesis by (simp add: prop_of_put)
    qed
  qed
  with h show "proto_get (fst (snd (Class rx EventEmitter args1 obj1))) k2 = Wrapper f names True"
    by (intro Class_keeps_converted) auto
qed

text \<open>
  The \<^verbatim>\<open>Sleeper\<close> class of the README with \<^verbatim>\<open>__asyncify: true\<close>, and three more
  methods: one natively asynchronous, one whose last parameter is \<^verbatim>\<open>mycb\<close>, one
  without a callback. \<open>sleeper_converted\<close> is the class after the augmentation.
\<close>

definition sleeper :: construct where
  "sleeper = \<lparr>proto_own = [(''constructor'', Fn ''Sleeper'' False ''class Sleeper {'' False),
                            (''sleep'', Fn ''sleep'' False ''sleep(milliseconds, callback) {'' False),
                            (''nap'', Fn ''nap'' True ''async nap(ms) {'' False),
                            (''save'', Fn ''save'' False ''save(data, mycb) {'' False),
                            (''foo'', Fn ''foo'' False ''foo() {'' False)],
               proto_chain = [],
               static_own = [(''length'', Num 0), (''name'', Str ''Sleeper'')],
               static_chain = []\<rparr>"

definition sleeper_args :: props where
  "sleeper_args = [(''__asyncify'', Bool True)]"

definition sleeper_converted :: construct where
  "sleeper_converted = \<lparr>proto_own = [(''constructor'', Fn ''Sleeper'' False ''class Sleeper {'' False),
       (''sleep'', Wrapper (Fn ''sleep'' False ''sleep(milliseconds, callback) {'' False) Undefined True),
       (''nap'', Fn ''nap'' True ''async nap(ms) {'' False),
       (''save'', Wrapper (Fn ''save'' False ''save(data, mycb) {'' False) Undefined True),
       (''foo'', Fn ''foo'' False ''foo() {'' False)],
     proto_chain = [],
     static_own = [(''length'', Num 0), (''name'', Str ''Sleeper'')],
     static_chain = []\<rparr>"

lemma sniff_examples:
  "sniff_callback ''sleep(milliseconds, callback) {''"
  "sniff_callback ''save(data, mycb) {''"
  "\<not> sniff_callback ''foo() {''"
  "\<not> sniff_callback ''class Sleeper {''"
  "\<not> sniff_callback ''async nap(ms) {''"
  by (simp_all add: sniff_callback_def andthen_def is_space_def)

lemma sleeper_pass: "asyncify_pass rx (Bool True) sleeper = sleeper_converted"
  by (simp add: asyncify_pass_def sleeper_def sleeper_converted_def asyncify_sniffed_def
      skipped_member_def proto_get_def unconverted_def convert_def asyncify_def proto_set_def
      sniff_examples)

lemma sleeper_Class: "Class rx EventEmitter sleeper_args sleeper = (sleeper_args, sleeper_converted, None)"
  by (simp add: Class_def sleeper_args_def prop_of_def static_pass_def sleeper_pass
      assemble_mixins_def bind_mixins_def finalize_hooks_def instance_defaults_def copy_arg_def
      meta_key_def)

lemma converted_once_sleeper:
  "is_async_function (proto_get sleeper ''nap'') \<and>
   proto_get (asyncify_pass (\<lambda>n s. False) (Bool True) sleeper) ''nap''
     = Fn ''nap'' True ''async nap(ms) {'' False \<and>
   Class (\<lambda>n s. False) ex_emitter sleeper_args sleeper = (sleeper_args, sleeper_converted, None) \<and>
   proto_get sleeper_converted ''sleep''
     = Wrapper (Fn ''sleep'' False ''sleep(milliseconds, callback) {'' False) Undefined True \<and>
   proto_get (fst (snd (Class (\<lambda>n s. False) ex_emitter sleeper_args sleeper_converted))) ''sleep''
     = Wrapper (Fn ''sleep'' False ''sleep(milliseconds, callback) {'' False) Undefined True \<and>
   list_all single_wrapped (map snd (proto_own sleeper @ proto_chain sleeper)) \<and>
   list_all single_wrapped (map snd sleeper_args) \<and> mixins_clean sleeper_args \<and>
   mixin_clean ex_emitter \<and>
   wrap_depth (proto_get (fst (snd (Class (\<lambda>n s. False) ex_emitter sleeper_args
     sleeper_converted))) ''sleep'') \<le> 1"
proof -
  have h: "list_all single_wrapped (map snd (proto_own sleeper @ proto_chain sleeper)) \<and>
      list_all single_wrapped (map snd sleeper_args) \<and> mixins_clean sleeper_args \<and>
      mixin_clean ex_emitter"
    by (simp add: sleeper_def sleeper_args_def ex_emitter_def single_wrapped_def mixins_clean_def
        mixin_clean_def prop_of_def)
  have g: "proto_get sleeper ''nap'' = Fn ''nap'' True ''async nap(ms) {'' False"
    "proto_get sleeper_converted ''sleep''
       = Wrapper (Fn ''sleep'' False ''sleep(milliseconds, callback) {'' False) Undefined True"
    by (simp_all add: sleeper_def sleeper_converted_def proto_get_def)
  from converted_once [where rx = "\<lambda>n s. False" and a = "Bool True" and c = sleeper
      and k = "''nap''" and EventEmitter = ex_emitter and args = sleeper_args and obj = sleeper
      and ?args1.0 = sleeper_args and ?obj1.0 = sleeper_converted and ?k2.0 = "''sleep''"
      and f = "Fn ''sleep'' False ''sleep(milliseconds, callback) {'' False"
      and names = Undefined and ?k3.0 = "''sleep''"] h g
  show ?thesis by (simp add: sleeper_Class)
qed

text \<open>
  A class that brings its own \<^verbatim>\<open>fireHook\<close>, a natively asynchronous method, and asks
  for hooks: \<^verbatim>\<open>Class({ __hooks: true }, class Own { async fireHook(name, thingy) { } })\<close>.
\<close>

definition own_hooks :: construct where
  "own_hooks = \<lparr>proto_own = [(''constructor'', Fn ''Own'' False ''class Own {'' False),
                              (''fireHook'', Fn ''fireHook'' True
                                 ''async fireHook(name, thingy) {'' False)],
                 proto_chain = [],
                 static_own = [(''length'', Num 0), (''name'', Str ''Own'')],
                 static_chain = []\<rparr>"

text \<open>
  Claim C7, on this class. \<^verbatim>\<open>Class\<close> returns normally; the mixin \<^verbatim>\<open>HookHelper\<close>
  does not replace the method that the class has, and the last step, which looks at the
  marker only, converts it: a natively asynchronous method is wrapped.
\<close>

theorem native_async_fireHook_is_converted:
  "is_async_function (proto_get own_hooks ''fireHook'') \<and>
   snd (snd (Class rx EventEmitter [(''__hooks'', Bool True)] own_hooks)) = None \<and>
   proto_get (fst (snd (Class rx EventEmitter [(''__hooks'', Bool True)] own_hooks))) ''fireHook''
     = Wrapper (Fn ''fireHook'' True ''async fireHook(name, thingy) {'' False) Undefined True"
proof -
  let ?args = "[(''__hooks'', Bool True)]"
  let ?f = "Fn ''fireHook'' True ''async fireHook(name, thingy) {'' False"
  have g: "proto_get own_hooks ''fireHook'' = ?f"
    by (simp add: own_hooks_def proto_get_def)
  have c2: "asyncify_pass rx (prop_of ?args ''__asyncify'')
      (static_pass (prop_of ?args ''__static'') own_hooks) = own_hooks"
    by (simp add: prop_of_def asyncify_pass_def static_pass_def)
  have am: "assemble_mixins EventEmitter ?args = Inr (?args, Fresh [HookHelper])"
    by (simp add: assemble_mixins_def bind_mixins_def prop_of_def)
  obtain c3 where m: "merge_mixins [HookHelper] own_hooks = (c3, None)"
    by (simp add: HookHelper_def)
  from g have "in_proto own_hooks ''fireHook''"
    by (simp add: proto_get_in_proto)
  from merge_mixins_keeps_proto [OF this, of "[HookHelper]"] m g
  have g3: "proto_get c3 ''fireHook'' = ?f"
    by simp
  then have f: "finalize_hooks ?args c3 = Inr (convert Undefined ''fireHook'' c3)"
    by (simp add: finalize_hooks_def prop_of_def)
  from c2 am m f have "Class rx EventEmitter ?args own_hooks
      = (?args, instance_defaults ?args (convert Undefined ''fireHook'' c3), None)"
    by (simp add: Class_def)
  with g g3 show ?thesis
    by (simp add: instance_defaults_get convert_get has_key_def)
qed

text \<open>
  Claim C9, on the class \<^verbatim>\<open>Sleeper\<close> above. With the plain flag \<^verbatim>\<open>true\<close> the method
  \<^verbatim>\<open>save(data, mycb)\<close>, whose last parameter is named neither \<^verbatim>\<open>callback\<close> nor
  \<^verbatim>\<open>cb\<close>, is converted.
\<close>

theorem sniffed_parameter_suffix:
  "proto_get sleeper ''save'' = Fn ''save'' False ''save(data, mycb) {'' False \<and>
   proto_get (asyncify_pass rx (Bool True) sleeper) ''save''
     = Wrapper (Fn ''save'' False ''save(data, mycb) {'' False) Undefined True"
  by (simp add: sleeper_pass) (simp add: sleeper_def sleeper_converted_def proto_get_def)


section \<open>The hook dispatcher\<close>

text \<open>
  A listener is a function of the caller. The dispatcher tells two kinds apart by
  \<^verbatim>\<open>handler.constructor.name === "AsyncFunction"\<close>; what a listener does is its
  conduct, and it follows the convention of the README. A callback-style listener calls
  the callback it is given once, with a first argument (the error, falsy for none),
  either during its own call (\<open>During\<close>) or in a later turn, from a timer or some
  input (\<open>After\<close>), or never calls it. An async listener returns a promise that is
  rejected (\<open>Inl\<close>) or fulfilled (\<open>Inr\<close>), already when the listener returns or in a
  later turn, or never. The number is the identity of the function (the same function
  registered twice is the same listener twice). Listeners do not register or remove
  hooks while a fire is going on.
\<close>

datatype moment = During | After

datatype listener =
    Callback_listener nat "(moment \<times> jsval) option"
  | Async_listener nat "(moment \<times> (jsval + jsval)) option"

text \<open>
  \<^verbatim>\<open>this.hooks\<close>: absent until first used, then the object \<^verbatim>\<open>{}\<close> with an array
  of listeners under each name that has some. A registry is the own properties of that
  object.
\<close>

type_synonym registry = "string \<Rightarrow> listener list option"

definition ensure_hooks :: "registry option \<Rightarrow> registry" where
  "ensure_hooks hooks = (case hooks of None \<Rightarrow> Map.empty | Some r \<Rightarrow> r)"

text \<open>
  \<^verbatim>\<open>this.hooks[name]\<close> reads through the prototype chain, and \<^verbatim>\<open>{}\<close> inherits
  from \<^verbatim>\<open>Object.prototype\<close>. So what is found under a name is an array of listeners,
  or an inherited function, of which only its \<^verbatim>\<open>length\<close> matters here, or (under
  \<^verbatim>\<open>__proto__\<close>) the object \<^verbatim>\<open>Object.prototype\<close> itself, or nothing.
\<close>

datatype slot = Listeners "listener list" | Inherited_function nat | Inherited_object

definition object_prototype :: "string \<Rightarrow> slot option" where
  "object_prototype =
     map_of [(''constructor'', Inherited_function 1),
             (''hasOwnProperty'', Inherited_function 1),
             (''isPrototypeOf'', Inherited_function 1),
             (''propertyIsEnumerable'', Inherited_function 1),
             (''toString'', Inherited_function 0),
             (''toLocaleString'', Inherited_function 0),
             (''valueOf'', Inherited_function 0),
             (''__defineGetter__'', Inherited_function 2),
             (''__defineSetter__'', Inherited_function 2),
             (''__lookupGetter__'', Inherited_function 1),
             (''__lookupSetter__'', Inherited_function 1),
             (''__proto__'', Inherited_object)]"

definition hooks_get :: "registry \<Rightarrow> string \<Rightarrow> slot option" where
  "hooks_get r name =
     (case r name of Some hs \<Rightarrow> Some (Listeners hs) | None \<Rightarrow> object_prototype name)"

text \<open>
  \<^verbatim>\<open>registerHook(name, handler)\<close>. Under an inherited name there is something truthy
  that has no \<^verbatim>\<open>push\<close>: the call throws, after the registry was created. The result
  is the registry as it is left, with the error if one was thrown.
\<close>

definition registerHook ::
  "registry option \<Rightarrow> string \<Rightarrow> listener \<Rightarrow> registry option \<times> error option" where
  "registerHook hooks name handler =
     (let r = ensure_hooks hooks in
      case hooks_get r name of
        None \<Rightarrow> (Some (r(name \<mapsto> [handler])), None)
      | Some s \<Rightarrow>
          (case s of
             Listeners hs \<Rightarrow> (Some (r(name \<mapsto> hs @ [handler])), None)
           | Inherited_function n \<Rightarrow> (Some r, Some TypeError)
           | Inherited_object \<Rightarrow> (Some r, Some TypeError)))"

text \<open>
  \<^verbatim>\<open>removeHook(name, handler)\<close>: with a handler, \<^verbatim>\<open>indexOf\<close> and \<^verbatim>\<open>splice\<close> take
  its first occurrence out, and an array left empty is deleted; without one, the name
  is deleted. Under an inherited name there is no \<^verbatim>\<open>indexOf\<close>, and \<^verbatim>\<open>delete\<close>
  removes nothing that is inherited.
\<close>

definition removeHook ::
  "registry option \<Rightarrow> string \<Rightarrow> listener option \<Rightarrow> registry option \<times> error option" where
  "removeHook hooks name handler =
     (let r = ensure_hooks hooks in
      case handler of
        Some h \<Rightarrow>
          (case hooks_get r name of
             None \<Rightarrow> (Some r, None)
           | Some s \<Rightarrow>
               (case s of
                  Listeners hs \<Rightarrow>
                    (if remove1 h hs = [] then Some (r(name := None))
                     else Some (r(name \<mapsto> remove1 h hs)), None)
                | Inherited_function n \<Rightarrow> (Some r, Some TypeError)
                | Inherited_object \<Rightarrow> (Some r, Some TypeError)))
      | None \<Rightarrow> (Some (r(name := None)), None))"

subsection \<open>Turns of the event loop\<close>

text \<open>
  What is waiting to run after the current code has returned: a function given to
  \<^verbatim>\<open>process.nextTick\<close>, the reaction of a settled promise (a microtask), or a timer
  or input event in which a listener completes (a macrotask). Node runs the tick queue
  first, then the microtasks, then one macrotask.
\<close>

datatype queue = Tick | Micro | Macro

datatype task =
    Run_iterator
  | Run_callback
  | Reaction nat "jsval + jsval"
  | Listener_calls_back nat jsval
  | Promise_settles nat "jsval + jsval"

fun queue_of :: "task \<Rightarrow> queue" where
  "queue_of Run_iterator = Tick"
| "queue_of Run_callback = Tick"
| "queue_of (Reaction i r) = Micro"
| "queue_of (Listener_calls_back i err) = Macro"
| "queue_of (Promise_settles i r) = Macro"

text \<open>
  What can be seen of a fire: a turn of the event loop begins; a listener is invoked
  with the payload; a listener has completed (its callback is called, its promise is
  settled); the callback given to \<^verbatim>\<open>fireHook\<close> is called with these arguments.
\<close>

datatype event =
    Turn queue
  | Invoke nat jsval
  | Completed nat
  | Done "jsval list"

text \<open>
  The state of one fire: the array \<^verbatim>\<open>self.hooks[name]\<close>, the variable \<^verbatim>\<open>idx\<close> of
  the closure, what is waiting to run, and what has happened so far.
\<close>

record fire =
  handlers :: "listener list"
  idx :: nat
  pending :: "task list"
  trace :: "event list"

definition emit :: "event list \<Rightarrow> fire \<Rightarrow> fire" where
  "emit es m = m\<lparr>trace := trace m @ es\<rparr>"

definition schedule :: "task \<Rightarrow> fire \<Rightarrow> fire" where
  "schedule t m = m\<lparr>pending := pending m @ [t]\<rparr>"

text \<open>
  The call of one handler inside \<^verbatim>\<open>iterator\<close>. For a callback-style listener that
  calls back during its own call, \<^verbatim>\<open>nextThread\<close> is still 0: an error goes to
  \<^verbatim>\<open>callback\<close> at once, otherwise \<^verbatim>\<open>iterator\<close> is given to \<^verbatim>\<open>process.nextTick\<close>.
  For an async listener, \<^verbatim>\<open>.then( iterator, callback )\<close> reacts in a microtask once
  the promise is settled.
\<close>

fun invoke :: "jsval \<Rightarrow> listener \<Rightarrow> fire \<Rightarrow> fire" where
  "invoke thingy (Callback_listener i None) m = emit [Invoke i thingy] m"
| "invoke thingy (Callback_listener i (Some (During, err))) m =
     (if truthy err then emit [Invoke i thingy, Completed i, Done [err]] m
      else schedule Run_iterator (emit [Invoke i thingy, Completed i] m))"
| "invoke thingy (Callback_listener i (Some (After, err))) m =
     schedule (Listener_calls_back i err) (emit [Invoke i thingy] m)"
| "invoke thingy (Async_listener i None) m = emit [Invoke i thingy] m"
| "invoke thingy (Async_listener i (Some (During, r))) m =
     schedule (Reaction i r) (emit [Invoke i thingy, Completed i] m)"
| "invoke thingy (Async_listener i (Some (After, r))) m =
     schedule (Promise_settles i r) (emit [Invoke i thingy] m)"

text \<open>
  \<^verbatim>\<open>var handler = self.hooks[name][idx++]; if (!handler) return callback(); ...\<close>
\<close>

definition iterator :: "jsval \<Rightarrow> fire \<Rightarrow> fire" where
  "iterator thingy m =
     (if idx m < length (handlers m)
      then invoke thingy (handlers m ! idx m) (m\<lparr>idx := Suc (idx m)\<rparr>)
      else emit [Done []] (m\<lparr>idx := Suc (idx m)\<rparr>))"

text \<open>
  One waiting task runs. A callback-style listener that calls back in a later turn
  finds \<^verbatim>\<open>nextThread\<close> at 1, so \<^verbatim>\<open>iterator\<close> runs inside that call.
\<close>

fun run_task :: "jsval \<Rightarrow> task \<Rightarrow> fire \<Rightarrow> fire" where
  "run_task thingy Run_iterator m = iterator thingy m"
| "run_task thingy Run_callback m = emit [Done []] m"
| "run_task thingy (Reaction i (Inr v)) m = iterator thingy m"
| "run_task thingy (Reaction i (Inl reason)) m = emit [Done [reason]] m"
| "run_task thingy (Listener_calls_back i err) m =
     (if truthy err then emit [Completed i, Done [err]] m
      else iterator thingy (emit [Completed i] m))"
| "run_task thingy (Promise_settles i r) m = schedule (Reaction i r) (emit [Completed i] m)"

text \<open>The next task to run: the first of the tick queue, else of the microtasks, else of the rest.\<close>

definition next_task :: "task list \<Rightarrow> (task \<times> task list) option" where
  "next_task ts =
     (case filter (\<lambda>t. queue_of t = Tick) ts of
        t # _ \<Rightarrow> Some (t, remove1 t ts)
      | [] \<Rightarrow>
          (case filter (\<lambda>t. queue_of t = Micro) ts of
             t # _ \<Rightarrow> Some (t, remove1 t ts)
           | [] \<Rightarrow> (case ts of t # _ \<Rightarrow> Some (t, remove1 t ts) | [] \<Rightarrow> None)))"


text \<open>
  The event loop runs what is waiting until nothing is. It ends because every task
  either goes away or moves \<open>idx\<close> forward; \<open>potential\<close> counts what is left.
\<close>

fun weight :: "task \<Rightarrow> nat" where
  "weight (Promise_settles i r) = 2"
| "weight t = 1"

definition potential :: "fire \<Rightarrow> nat" where
  "potential m = 3 * (Suc (length (handlers m)) - idx m) + sum_list (map weight (pending m))"

lemma potential_emit: "potential (emit es m) = potential m"
  by (simp add: potential_def emit_def)

lemma potential_schedule: "potential (schedule t m) = potential m + weight t"
  by (simp add: potential_def schedule_def)

lemma potential_invoke: "potential (invoke thingy h m) \<le> potential m + 2"
  by (induction thingy h m rule: invoke.induct)
     (simp_all add: potential_emit potential_schedule)

lemma potential_iterator: "potential (iterator thingy m) \<le> potential m"
proof (cases "idx m < length (handlers m)")
  case True
  then have "potential (m\<lparr>idx := Suc (idx m)\<rparr>) + 3 = potential m"
    by (simp add: potential_def)
  with potential_invoke [of thingy "handlers m ! idx m" "m\<lparr>idx := Suc (idx m)\<rparr>"] True
  show ?thesis by (simp add: iterator_def)
next
  case False
  then show ?thesis by (simp add: iterator_def potential_emit) (simp add: potential_def)
qed

lemma potential_run_task: "potential (run_task thingy t m) < potential m + weight t"
proof (cases t)
  case Run_iterator
  with potential_iterator [of thingy m] show ?thesis by simp
next
  case Run_callback
  then show ?thesis by (simp add: potential_emit)
next
  case (Reaction i r)
  with potential_iterator [of thingy m] show ?thesis
    by (cases r) (simp_all add: potential_emit)
next
  case (Listener_calls_back i err)
  with potential_iterator [of thingy "emit [Completed i] m"] show ?thesis
    by (simp add: potential_emit)
next
  case (Promise_settles i r)
  then show ?thesis by (simp add: potential_emit potential_schedule)
qed

lemma next_task_weight:
  "next_task ts = Some (t, rest) \<Longrightarrow> sum_list (map weight rest) + weight t = sum_list (map weight ts)"
proof -
  have rm: "t \<in> set ts \<Longrightarrow> sum_list (map weight (remove1 t ts)) + weight t = sum_list (map weight ts)"
    for t ts
    by (induction ts) auto
  assume a: "next_task ts = Some (t, rest)"
  have mem: "filter P ts = x # xs \<Longrightarrow> x \<in> set ts" for P x xs
  proof -
    assume "filter P ts = x # xs"
    then have "x \<in> set (filter P ts)" by simp
    then show "x \<in> set ts" by simp
  qed
  from a have "t \<in> set ts \<and> rest = remove1 t ts"
    by (auto simp: next_task_def split: list.splits dest: mem)
  with rm show ?thesis by simp
qed

function run_loop :: "jsval \<Rightarrow> fire \<Rightarrow> fire" where
  "run_loop thingy m =
     (case next_task (pending m) of
        None \<Rightarrow> m
      | Some (t, rest) \<Rightarrow>
          run_loop thingy (run_task thingy t (emit [Turn (queue_of t)] (m\<lparr>pending := rest\<rparr>))))"
  by pat_completeness auto
termination
proof (relation "measure (\<lambda>(thingy, m). potential m)")
  show "wf (measure (\<lambda>(thingy, m). potential m))" by simp
next
  fix thingy :: jsval and m :: fire and x t rest
  assume "next_task (pending m) = Some x" and "(t, rest) = x"
  then have n: "next_task (pending m) = Some (t, rest)" by simp
  have "potential (emit [Turn (queue_of t)] (m\<lparr>pending := rest\<rparr>)) + weight t = potential m"
    using next_task_weight [OF n] by (simp add: potential_emit) (simp add: potential_def)
  with potential_run_task [of thingy t "emit [Turn (queue_of t)] (m\<lparr>pending := rest\<rparr>)"]
  show "((thingy, run_task thingy t (emit [Turn (queue_of t)] (m\<lparr>pending := rest\<rparr>))), thingy, m)
          \<in> measure (\<lambda>(thingy, m). potential m)"
    by simp
qed

text \<open>
  \<^verbatim>\<open>fireHook(name, thingy, callback)\<close>, up to its return: the registry is created if
  absent; if \<^verbatim>\<open>this.hooks[name]\<close> or its \<^verbatim>\<open>length\<close> is falsy, \<^verbatim>\<open>callback\<close> is
  given to \<^verbatim>\<open>process.nextTick\<close>; otherwise \<^verbatim>\<open>iterator\<close> is called. An inherited
  function has a \<^verbatim>\<open>length\<close> and no element under any index, so \<^verbatim>\<open>iterator\<close> finds
  no handler in it. The result is the registry and the fire as it stands when
  \<^verbatim>\<open>fireHook\<close> returns; \<open>run_loop\<close> takes it from there.
\<close>

definition start :: "listener list \<Rightarrow> fire" where
  "start hs = \<lparr>handlers = hs, idx = 0, pending = [], trace = []\<rparr>"

definition fireHook :: "registry option \<Rightarrow> string \<Rightarrow> jsval \<Rightarrow> registry \<times> fire" where
  "fireHook hooks name thingy =
     (let r = ensure_hooks hooks in
      case hooks_get r name of
        None \<Rightarrow> (r, schedule Run_callback (start []))
      | Some s \<Rightarrow>
          (case s of
             Listeners hs \<Rightarrow>
               if hs = [] then (r, schedule Run_callback (start hs))
               else (r, iterator thingy (start hs))
           | Inherited_function n \<Rightarrow>
               if n = 0 then (r, schedule Run_callback (start []))
               else (r, iterator thingy (start []))
           | Inherited_object \<Rightarrow> (r, schedule Run_callback (start []))))"

text \<open>The whole fire: everything that happens, to the end.\<close>

definition fire_trace :: "registry option \<Rightarrow> string \<Rightarrow> jsval \<Rightarrow> event list" where
  "fire_trace hooks name thingy = trace (run_loop thingy (snd (fireHook hooks name thingy)))"

declare run_loop.simps [simp del]

subsection \<open>What a fire looks like\<close>

text \<open>
  The events of a series of listeners, written down listener by listener: the events
  that the dispatcher is expected to produce from the moment \<^verbatim>\<open>iterator\<close> reaches the
  first of them.
\<close>

fun series :: "jsval \<Rightarrow> listener list \<Rightarrow> event list" where
  "series thingy [] = [Done []]"
| "series thingy (Callback_listener i None # hs) = [Invoke i thingy]"
| "series thingy (Callback_listener i (Some (During, err)) # hs) =
     [Invoke i thingy, Completed i] @
     (if truthy err then [Done [err]] else Turn Tick # series thingy hs)"
| "series thingy (Callback_listener i (Some (After, err)) # hs) =
     [Invoke i thingy, Turn Macro, Completed i] @
     (if truthy err then [Done [err]] else series thingy hs)"
| "series thingy (Async_listener i None # hs) = [Invoke i thingy]"
| "series thingy (Async_listener i (Some (During, Inl reason)) # hs) =
     [Invoke i thingy, Completed i, Turn Micro, Done [reason]]"
| "series thingy (Async_listener i (Some (During, Inr v)) # hs) =
     [Invoke i thingy, Completed i, Turn Micro] @ series thingy hs"
| "series thingy (Async_listener i (Some (After, Inl reason)) # hs) =
     [Invoke i thingy, Turn Macro, Completed i, Turn Micro, Done [reason]]"
| "series thingy (Async_listener i (Some (After, Inr v)) # hs) =
     [Invoke i thingy, Turn Macro, Completed i, Turn Micro] @ series thingy hs"

lemma next_task_single: "next_task [t] = Some (t, [])"
  by (cases t) (simp_all add: next_task_def)

lemma run_loop_idle: "pending m = [] \<Longrightarrow> run_loop thingy m = m"
  by (simp add: run_loop.simps [of thingy m] next_task_def)

lemma run_loop_single:
  "pending m = [t] \<Longrightarrow>
   run_loop thingy m = run_loop thingy (run_task thingy t (emit [Turn (queue_of t)] (m\<lparr>pending := []\<rparr>)))"
  by (simp add: run_loop.simps [of thingy m] next_task_single)

lemma emit_fields [simp]:
  "handlers (emit es m) = handlers m" "idx (emit es m) = idx m"
  "pending (emit es m) = pending m" "trace (emit es m) = trace m @ es"
  by (simp_all add: emit_def)

lemma schedule_fields [simp]:
  "handlers (schedule t m) = handlers m" "idx (schedule t m) = idx m"
  "pending (schedule t m) = pending m @ [t]" "trace (schedule t m) = trace m"
  by (simp_all add: schedule_def)

lemma iterator_series:
  "pending m = [] \<Longrightarrow> drop (idx m) (handlers m) = hs \<Longrightarrow>
   trace (run_loop thingy (iterator thingy m)) = trace m @ series thingy hs"
proof (induction hs arbitrary: m)
  case Nil
  then have "\<not> idx m < length (handlers m)" by simp
  with Nil show ?case by (simp add: iterator_def run_loop_idle)
next
  case (Cons h hs)
  from Cons.prems have lt: "idx m < length (handlers m)"
    by (metis drop_eq_Nil list.distinct(1) not_le)
  with Cons.prems have h: "handlers m ! idx m = h" and rest: "drop (Suc (idx m)) (handlers m) = hs"
    by (metis Cons_nth_drop_Suc list.inject)+
  let ?m = "m\<lparr>idx := Suc (idx m), pending := []\<rparr>"
  from lt h have it: "iterator thingy m = invoke thingy h (m\<lparr>idx := Suc (idx m)\<rparr>)"
    by (simp add: iterator_def)
  have step: "trace (run_loop thingy (iterator thingy m')) = trace m' @ series thingy hs"
    if "pending m' = []" "idx m' = Suc (idx m)" "handlers m' = handlers m" for m'
    using Cons.IH [of m'] that rest by simp
  show ?case
  proof (cases h)
    case (Callback_listener i c)
    show ?thesis
    proof (cases c)
      case None
      with Callback_listener it Cons.prems show ?thesis by (simp add: run_loop_idle)
    next
      case (Some we)
      obtain w err where we: "we = (w, err)" by (cases we)
      show ?thesis
      proof (cases w)
        case During
        show ?thesis
        proof (cases "truthy err")
          case True
          with During we Some Callback_listener it Cons.prems show ?thesis
            by (simp add: run_loop_idle)
        next
          case False
          let ?m1 = "emit [Turn Tick] (emit [Invoke i thingy, Completed i] ?m)"
          from False During we Some Callback_listener it Cons.prems
          have "run_loop thingy (iterator thingy m) = run_loop thingy (iterator thingy ?m1)"
            by (simp add: run_loop_single schedule_def emit_def)
          moreover from Cons.prems have "trace (run_loop thingy (iterator thingy ?m1))
              = trace ?m1 @ series thingy hs"
            by (intro step) simp_all
          ultimately show ?thesis using False During we Some Callback_listener by simp
        qed
      next
        case After
        let ?m1 = "emit [Turn Macro] (emit [Invoke i thingy] ?m)"
        from After we Some Callback_listener it Cons.prems
        have r: "run_loop thingy (iterator thingy m)
            = run_loop thingy (run_task thingy (Listener_calls_back i err) ?m1)"
          by (simp add: run_loop_single schedule_def emit_def)
        show ?thesis
        proof (cases "truthy err")
          case True
          with r After we Some Callback_listener Cons.prems show ?thesis
            by (simp add: run_loop_idle)
        next
          case False
          from Cons.prems have "trace (run_loop thingy (iterator thingy (emit [Completed i] ?m1)))
              = trace (emit [Completed i] ?m1) @ series thingy hs"
            by (intro step) simp_all
          with r False After we Some Callback_listener show ?thesis by simp
        qed
      qed
    qed
  next
    case (Async_listener i c)
    show ?thesis
    proof (cases c)
      case None
      with Async_listener it Cons.prems show ?thesis by (simp add: run_loop_idle)
    next
      case (Some wr)
      obtain w r where wr: "wr = (w, r)" by (cases wr)
      show ?thesis
      proof (cases w)
        case During
        let ?m1 = "emit [Turn Micro] (emit [Invoke i thingy, Completed i] ?m)"
        from During wr Some Async_listener it Cons.prems
        have r1: "run_loop thingy (iterator thingy m)
            = run_loop thingy (run_task thingy (Reaction i r) ?m1)"
          by (simp add: run_loop_single schedule_def emit_def)
        show ?thesis
        proof (cases r)
          case (Inl reason)
          with r1 During wr Some Async_listener Cons.prems show ?thesis
            by (simp add: run_loop_idle)
        next
          case (Inr v)
          from Cons.prems have "trace (run_loop thingy (iterator thingy ?m1))
              = trace ?m1 @ series thingy hs"
            by (intro step) simp_all
          with r1 Inr During wr Some Async_listener show ?thesis by simp
        qed
      next
        case After
        let ?m1 = "emit [Completed i] (emit [Turn Macro] (emit [Invoke i thingy] ?m))"
        let ?m2 = "emit [Turn Micro] ?m1"
        from After wr Some Async_listener it Cons.prems
        have "run_loop thingy (iterator thingy m)
            = run_loop thingy (schedule (Reaction i r) ?m1)"
          by (simp add: run_loop_single schedule_def emit_def)
        also from Cons.prems have "\<dots> = run_loop thingy (run_task thingy (Reaction i r) ?m2)"
          by (simp add: run_loop_single schedule_def emit_def)
        finally have r1: "run_loop thingy (iterator thingy m)
            = run_loop thingy (run_task thingy (Reaction i r) ?m2)" .
        show ?thesis
        proof (cases r)
          case (Inl reason)
          with r1 After wr Some Async_listener Cons.prems show ?thesis
            by (simp add: run_loop_idle)
        next
          case (Inr v)
          from Cons.prems have "trace (run_loop thingy (iterator thingy ?m2))
              = trace ?m2 @ series thingy hs"
            by (intro step) simp_all
          with r1 Inr After wr Some Async_listener show ?thesis by simp
        qed
      qed
    qed
  qed
qed

text \<open>
  The cases in which \<^verbatim>\<open>fireHook\<close> takes the branch of \<^verbatim>\<open>process.nextTick\<close>: nothing
  under the name, an empty array, an inherited function of length 0, or
  \<^verbatim>\<open>Object.prototype\<close>.
\<close>

definition nothing_to_fire :: "slot option \<Rightarrow> bool" where
  "nothing_to_fire s =
     (s = None \<or> s = Some (Listeners []) \<or> s = Some (Inherited_function 0)
      \<or> s = Some Inherited_object)"

lemma fire_trace_empty:
  "nothing_to_fire (hooks_get (ensure_hooks hooks) name) \<Longrightarrow>
   trace (snd (fireHook hooks name thingy)) = [] \<and>
   pending (snd (fireHook hooks name thingy)) = [Run_callback] \<and>
   fire_trace hooks name thingy = [Turn Tick, Done []]"
  by (auto simp: nothing_to_fire_def fire_trace_def fireHook_def Let_def start_def
      run_loop_single run_loop_idle)

lemma hooks_get_own: "r name = Some hs \<Longrightarrow> hooks_get r name = Some (Listeners hs)"
  by (simp add: hooks_get_def)

lemma fire_trace_series:
  "ensure_hooks hooks name = Some hs \<Longrightarrow> hs \<noteq> [] \<Longrightarrow>
   fire_trace hooks name thingy = series thingy hs"
  using iterator_series [of "start hs" hs thingy]
  by (simp add: fire_trace_def fireHook_def Let_def hooks_get_own) (simp add: start_def)

lemma fire_trace_inherited:
  "ensure_hooks hooks name = None \<Longrightarrow> object_prototype name = Some (Inherited_function (Suc n)) \<Longrightarrow>
   trace (snd (fireHook hooks name thingy)) = [Done []] \<and>
   pending (snd (fireHook hooks name thingy)) = [] \<and>
   fire_trace hooks name thingy = [Done []]"
  by (simp add: fire_trace_def fireHook_def Let_def hooks_get_def start_def iterator_def
      run_loop_idle)

subsection \<open>Reading a trace\<close>

fun lid :: "listener \<Rightarrow> nat" where
  "lid (Callback_listener i c) = i"
| "lid (Async_listener i c) = i"

text \<open>A listener that completes without signalling failure.\<close>

fun completes_ok :: "listener \<Rightarrow> bool" where
  "completes_ok (Callback_listener i (Some (w, err))) = (\<not> truthy err)"
| "completes_ok (Async_listener i (Some (w, Inr v))) = True"
| "completes_ok h = False"

text \<open>
  The failure that a listener signals, if it does: the truthy first argument that a
  callback-style listener gives to its callback, the reason with which the promise of
  an async listener is rejected.
\<close>

fun failure_of :: "listener \<Rightarrow> jsval option" where
  "failure_of (Callback_listener i (Some (w, err))) = (if truthy err then Some err else None)"
| "failure_of (Async_listener i (Some (w, Inl reason))) = Some reason"
| "failure_of h = None"

text \<open>A listener that never completes.\<close>

fun never_completes :: "listener \<Rightarrow> bool" where
  "never_completes (Callback_listener i None) = True"
| "never_completes (Async_listener i None) = True"
| "never_completes h = False"

fun is_lifecycle :: "event \<Rightarrow> bool" where
  "is_lifecycle (Invoke i p) = True"
| "is_lifecycle (Completed i) = True"
| "is_lifecycle e = False"

text \<open>The invocations and completions of a trace, in order.\<close>

definition lifecycle :: "event list \<Rightarrow> event list" where
  "lifecycle es = filter is_lifecycle es"

text \<open>Each listener of a list invoked with the payload and then completed, one after the other.\<close>

definition pairs :: "jsval \<Rightarrow> listener list \<Rightarrow> event list" where
  "pairs thingy hs = concat (map (\<lambda>h. [Invoke (lid h) thingy, Completed (lid h)]) hs)"

text \<open>The listeners invoked, in order, and the argument lists given to the callback of the fire.\<close>

fun invoked :: "event list \<Rightarrow> nat list" where
  "invoked [] = []"
| "invoked (Invoke i p # es) = i # invoked es"
| "invoked (e # es) = invoked es"

fun dones :: "event list \<Rightarrow> jsval list list" where
  "dones [] = []"
| "dones (Done args # es) = args # dones es"
| "dones (e # es) = dones es"

text \<open>
  Invocations and completions are in sequence for a list of listeners when they go
  through the list in its order, each listener invoked with the payload and completed
  before the next one is invoked. The sequence may stop anywhere: after a completion,
  or after an invocation that is not (yet) completed.
\<close>

fun in_sequence :: "jsval \<Rightarrow> listener list \<Rightarrow> event list \<Rightarrow> bool" where
  "in_sequence thingy hs [] = True"
| "in_sequence thingy (h # hs) [Invoke i p] = (i = lid h \<and> p = thingy)"
| "in_sequence thingy (h # hs) (Invoke i p # Completed j # es) =
     (i = lid h \<and> p = thingy \<and> j = i \<and> in_sequence thingy hs es)"
| "in_sequence thingy hs es = False"

lemma series_in_sequence: "in_sequence thingy hs (lifecycle (series thingy hs))"
  by (induction thingy hs rule: series.induct) (simp_all add: lifecycle_def)

lemma series_not_Nil [simp]: "series thingy hs \<noteq> []"
  by (induction thingy hs rule: series.induct) simp_all

lemma series_all_ok:
  "list_all completes_ok hs \<Longrightarrow>
   invoked (series thingy hs) = map lid hs \<and> dones (series thingy hs) = [[]] \<and>
   last (series thingy hs) = Done []"
  by (induction thingy hs rule: series.induct) simp_all

lemma series_all_ok_lifecycle:
  "list_all completes_ok hs \<Longrightarrow> lifecycle (series thingy hs) = pairs thingy hs"
  by (induction thingy hs rule: series.induct) (simp_all add: lifecycle_def pairs_def)

lemma series_blocked:
  "j < length hs \<Longrightarrow> list_all completes_ok (take j hs) \<Longrightarrow> never_completes (hs ! j) \<Longrightarrow>
   lifecycle (series thingy hs) = pairs thingy (take j hs) @ [Invoke (lid (hs ! j)) thingy] \<and>
   dones (series thingy hs) = []"
proof (induction thingy hs arbitrary: j rule: series.induct)
  case (1 thingy)
  then show ?case by simp
next
  case (2 thingy i hs)
  then show ?case by (cases j) (simp_all add: lifecycle_def pairs_def)
next
  case (3 thingy i err hs)
  then show ?case by (cases j) (auto simp: lifecycle_def pairs_def split: if_splits)
next
  case (4 thingy i err hs)
  then show ?case by (cases j) (auto simp: lifecycle_def pairs_def split: if_splits)
next
  case (5 thingy i hs)
  then show ?case by (cases j) (simp_all add: lifecycle_def pairs_def)
next
  case (6 thingy i reason hs)
  then show ?case by (cases j) (simp_all add: lifecycle_def pairs_def)
next
  case (7 thingy i v hs)
  then show ?case by (cases j) (simp_all add: lifecycle_def pairs_def)
next
  case (8 thingy i reason hs)
  then show ?case by (cases j) (simp_all add: lifecycle_def pairs_def)
next
  case (9 thingy i v hs)
  then show ?case by (cases j) (simp_all add: lifecycle_def pairs_def)
qed

lemma series_failure:
  "j < length hs \<Longrightarrow> list_all completes_ok (take j hs) \<Longrightarrow> failure_of (hs ! j) = Some e \<Longrightarrow>
   invoked (series thingy hs) = map lid (take (Suc j) hs) \<and> dones (series thingy hs) = [[e]] \<and>
   last (series thingy hs) = Done [e]"
proof (induction thingy hs arbitrary: j rule: series.induct)
  case (1 thingy)
  then show ?case by simp
next
  case (2 thingy i hs)
  then show ?case by (cases j) simp_all
next
  case (3 thingy i err hs)
  then show ?case by (cases j) (auto split: if_splits)
next
  case (4 thingy i err hs)
  then show ?case by (cases j) (auto split: if_splits)
next
  case (5 thingy i hs)
  then show ?case by (cases j) simp_all
next
  case (6 thingy i reason hs)
  then show ?case by (cases j) simp_all
next
  case (7 thingy i v hs)
  then show ?case by (cases j) simp_all
next
  case (8 thingy i reason hs)
  then show ?case by (cases j) simp_all
next
  case (9 thingy i v hs)
  then show ?case by (cases j) simp_all
qed

subsection \<open>The fire seen through the converted fireHook\<close>

text \<open>
  \<^verbatim>\<open>Class\<close> converts \<^verbatim>\<open>fireHook\<close>, so a caller that passes no callback gets a
  promise. What the original \<^verbatim>\<open>fireHook\<close> does with the callback it is given: the calls
  made before it returns, and the calls made in later turns. It returns undefined.
\<close>

definition fire_effect :: "registry option \<Rightarrow> string \<Rightarrow> jsval \<Rightarrow> effect" where
  "fire_effect hooks name thingy =
     (let m = snd (fireHook hooks name thingy) in
      \<lparr>sync_calls = dones (trace m), outcome = Returned Undefined,
       later_calls = dones (drop (length (trace m)) (trace (run_loop thingy m)))\<rparr>)"

text \<open>
  A call of the original \<^verbatim>\<open>fireHook\<close> with an argument list: the name is the first
  argument, the payload the second, the callback the third. The name is taken to be a
  string and the callback to be callable.
\<close>

definition run_fireHook :: "registry option \<Rightarrow> jsval \<Rightarrow> jsval list \<Rightarrow> effect" where
  "run_fireHook hooks f args = fire_effect hooks (the_Str (elem args 0)) (elem args 1)"

text \<open>
  \<^verbatim>\<open>instance.fireHook(name, thingy)\<close> on an instance of an augmented class. A payload
  that is a function is taken for the callback by the converted method, and the original
  is then called without one; that call is not followed here (\<open>None\<close>).
\<close>

definition fireHook_promise :: "registry option \<Rightarrow> string \<Rightarrow> jsval \<Rightarrow> (jsval list \<times> yield) option" where
  "fireHook_promise hooks name thingy =
     (if is_function thingy then None
      else call_asyncified (run_fireHook hooks)
             (Fn ''fireHook'' False ''fireHook(name, thingy, callback) {'' False) Undefined
             [Str name, thingy])"

lemma dones_append: "dones (xs @ ys) = dones xs @ dones ys"
  by (induction xs rule: dones.induct) simp_all

lemma invoke_extends: "\<exists>es. trace (invoke thingy h m) = trace m @ es"
  by (induction thingy h m rule: invoke.induct) simp_all

lemma iterator_extends: "\<exists>es. trace (iterator thingy m) = trace m @ es"
  using invoke_extends [of thingy "handlers m ! idx m" "m\<lparr>idx := Suc (idx m)\<rparr>"]
  by (simp add: iterator_def)

lemma run_task_extends: "\<exists>es. trace (run_task thingy t m) = trace m @ es"
proof (cases t)
  case Run_iterator
  then show ?thesis by (simp add: iterator_extends)
next
  case Run_callback
  then show ?thesis by simp
next
  case (Reaction i r)
  then show ?thesis by (cases r) (simp_all add: iterator_extends)
next
  case (Listener_calls_back i err)
  with iterator_extends [of thingy "emit [Completed i] m"] show ?thesis by auto
next
  case (Promise_settles i r)
  then show ?thesis by simp
qed

lemma run_loop_extends: "\<exists>es. trace (run_loop thingy m) = trace m @ es"
proof (induction thingy m rule: run_loop.induct)
  case (1 thingy m)
  show ?case
  proof (cases "next_task (pending m)")
    case None
    then show ?thesis by (simp add: run_loop.simps [of thingy m])
  next
    case (Some tr)
    obtain t rest where tr: "tr = (t, rest)" by (cases tr)
    let ?m = "emit [Turn (queue_of t)] (m\<lparr>pending := rest\<rparr>)"
    from "1.IH" [OF Some tr [symmetric]] obtain es
      where "trace (run_loop thingy (run_task thingy t ?m)) = trace (run_task thingy t ?m) @ es"
      by blast
    moreover from run_task_extends [of thingy t ?m] obtain es'
      where "trace (run_task thingy t ?m) = trace ?m @ es'" by blast
    ultimately have "trace (run_loop thingy (run_task thingy t ?m))
        = trace m @ ([Turn (queue_of t)] @ es' @ es)" by simp
    with Some tr show ?thesis by (simp add: run_loop.simps [of thingy m])
  qed
qed

lemma fire_effect_calls:
  "sync_calls (fire_effect hooks name thingy) @ later_calls (fire_effect hooks name thingy)
     = dones (fire_trace hooks name thingy)"
proof -
  let ?m = "snd (fireHook hooks name thingy)"
  from run_loop_extends [of thingy ?m] obtain es
    where "trace (run_loop thingy ?m) = trace ?m @ es" by blast
  then show ?thesis
    by (simp add: fire_effect_def fire_trace_def Let_def dones_append)
qed

lemma settle_returned:
  "outcome e = Returned v \<Longrightarrow>
   settle a e = (case sync_calls e @ later_calls e of
                   [] \<Rightarrow> Some Pending | received # rest \<Rightarrow> synth_callback a received)"
  by (simp add: settle_def split: list.splits)

lemma fireHook_promise_dones:
  assumes "\<not> is_function thingy"
  shows "fireHook_promise hooks name thingy =
     (case dones (fire_trace hooks name thingy) of
        [] \<Rightarrow> Some ([Str name, thingy, SynthCallback], Promise Pending)
      | received # rest \<Rightarrow>
          (case synth_callback Undefined received of
             None \<Rightarrow> None
           | Some p \<Rightarrow> Some ([Str name, thingy, SynthCallback], Promise p)))"
proof -
  have "outcome (fire_effect hooks name thingy) = Returned Undefined"
    by (simp add: fire_effect_def Let_def)
  from settle_returned [OF this, of Undefined] assms show ?thesis
    by (simp add: fireHook_promise_def call_asyncified_def run_fireHook_def elem_def
        fire_effect_calls split: list.splits option.splits)
qed

lemma synth_callback_one:
  "synth_callback Undefined [e] = Some (if truthy e then Rejected e else Resolved Undefined)"
  by (simp add: synth_callback_def elem_def)

lemma synth_callback_none: "synth_callback Undefined [] = Some (Resolved Undefined)"
  by (simp add: synth_callback_def elem_def)

subsection \<open>Claims about a fire\<close>

text \<open>
  The listeners of the unit test \<^verbatim>\<open>hooks\<close>: the first completes from a timer, the
  second calls back at once. And a series of three where the second fails.
\<close>

definition went_to_party :: listener where
  "went_to_party = Callback_listener 1 (Some (After, Undefined))"

definition went_home :: listener where
  "went_home = Callback_listener 2 (Some (During, Undefined))"

definition party_hooks :: "registry option" where
  "party_hooks =
     fst (registerHook (fst (registerHook None ''party'' went_to_party)) ''party'' went_home)"

definition rained_out :: listener where
  "rained_out = Callback_listener 3 (Some (After, Str ''rain''))"

definition silent_reject :: listener where
  "silent_reject = Async_listener 4 (Some (During, Inl Undefined))"

definition stayed_out :: listener where
  "stayed_out = Async_listener 5 None"

lemma ensure_hooks_Some [simp]: "ensure_hooks (Some r) = r"
  by (simp add: ensure_hooks_def)

lemma registerHook_appends:
  "ensure_hooks hooks name = Some hs \<Longrightarrow>
   registerHook hooks name h = (Some ((ensure_hooks hooks)(name \<mapsto> hs @ [h])), None)"
  by (simp add: registerHook_def hooks_get_own)

lemma party_hooks_party: "ensure_hooks party_hooks ''party'' = Some [went_to_party, went_home]"
  by (simp add: party_hooks_def registerHook_def ensure_hooks_def hooks_get_def
      object_prototype_def)

lemma waiting_hooks:
  "ensure_hooks (Some [''party'' \<mapsto> [went_home, stayed_out, went_to_party]]) ''party''
     = Some [went_home, stayed_out, went_to_party]"
  by (simp add: ensure_hooks_def)

text \<open>
  Claim C1. The registry holds the listeners \<open>hs\<close> under the name. Then the fire is,
  event for event, the series of \<open>hs\<close>: what each listener's conduct gives, one
  listener after the other. Its invocations and completions go through \<open>hs\<close> in its
  order, each listener invoked with the payload and completed before the next one is
  invoked. The dispatcher waits: if the listeners before position \<open>j\<close> complete without
  failure and the listener at \<open>j\<close> never completes, then the listeners up to \<open>j\<close>
  are invoked, that at \<open>j\<close> last and without a completion, no later one is invoked, and
  the callback of the fire is never called. If every listener completes without failure,
  every listener is invoked and completed in turn and the fire ends with one call of its
  callback, without an error. The order of \<open>hs\<close> is the order of registration:
  \<^verbatim>\<open>registerHook\<close> puts the new listener last.
\<close>

theorem listeners_fire_in_sequence:
  assumes "ensure_hooks hooks name = Some hs"
  shows "(hs \<noteq> [] \<longrightarrow> fire_trace hooks name thingy = series thingy hs) \<and>
         in_sequence thingy hs (lifecycle (fire_trace hooks name thingy)) \<and>
         (\<forall>j<length hs. list_all completes_ok (take j hs) \<and> never_completes (hs ! j) \<longrightarrow>
            lifecycle (fire_trace hooks name thingy)
              = pairs thingy (take j hs) @ [Invoke (lid (hs ! j)) thingy] \<and>
            dones (fire_trace hooks name thingy) = []) \<and>
         (list_all completes_ok hs \<longrightarrow>
            lifecycle (fire_trace hooks name thingy) = pairs thingy hs \<and>
            invoked (fire_trace hooks name thingy) = map lid hs \<and>
            dones (fire_trace hooks name thingy) = [[]]) \<and>
         registerHook hooks name h = (Some ((ensure_hooks hooks)(name \<mapsto> hs @ [h])), None)"
proof (cases "hs = []")
  case True
  with assms have "nothing_to_fire (hooks_get (ensure_hooks hooks) name)"
    by (simp add: nothing_to_fire_def hooks_get_own)
  then have "fire_trace hooks name thingy = [Turn Tick, Done []]"
    by (simp add: fire_trace_empty)
  with True registerHook_appends [OF assms, of h] show ?thesis
    by (simp add: lifecycle_def pairs_def)
next
  case False
  with assms have s: "fire_trace hooks name thingy = series thingy hs"
    by (rule fire_trace_series)
  have "lifecycle (series thingy hs) = pairs thingy (take j hs) @ [Invoke (lid (hs ! j)) thingy] \<and>
      dones (series thingy hs) = []"
    if "j < length hs" "list_all completes_ok (take j hs) \<and> never_completes (hs ! j)" for j
    using that by (simp add: series_blocked)
  with s series_in_sequence [of thingy hs] series_all_ok [of hs thingy]
    series_all_ok_lifecycle [of hs thingy] registerHook_appends [OF assms, of h]
  show ?thesis
    by simp
qed

theorem listeners_fire_in_sequence_witness:
  "ensure_hooks party_hooks ''party'' = Some [went_to_party, went_home] \<and>
   list_all completes_ok [went_to_party, went_home] \<and>
   fire_trace party_hooks ''party'' (Str ''present'') =
     [Invoke 1 (Str ''present''), Turn Macro, Completed 1,
      Invoke 2 (Str ''present''), Completed 2, Turn Tick, Done []] \<and>
   in_sequence (Str ''present'') [went_to_party, went_home]
     (lifecycle (fire_trace party_hooks ''party'' (Str ''present''))) \<and>
   invoked (fire_trace party_hooks ''party'' (Str ''present'')) = [1, 2] \<and>
   dones (fire_trace party_hooks ''party'' (Str ''present'')) = [[]] \<and>
   (1::nat) < length [went_home, stayed_out, went_to_party] \<and>
   list_all completes_ok (take 1 [went_home, stayed_out, went_to_party]) \<and>
   never_completes ([went_home, stayed_out, went_to_party] ! 1) \<and>
   lifecycle (fire_trace (Some [''party'' \<mapsto> [went_home, stayed_out, went_to_party]]) ''party''
     (Str ''present''))
     = [Invoke 2 (Str ''present''), Completed 2, Invoke 5 (Str ''present'')] \<and>
   dones (fire_trace (Some [''party'' \<mapsto> [went_home, stayed_out, went_to_party]]) ''party''
     (Str ''present'')) = []"
proof -
  let ?p = "Str ''present''"
  let ?w = "Some [''party'' \<mapsto> [went_home, stayed_out, went_to_party]]"
  have ok: "list_all completes_ok [went_to_party, went_home]"
    by (simp add: went_to_party_def went_home_def)
  have ne: "[went_to_party, went_home] \<noteq> []"
    by simp
  from listeners_fire_in_sequence [OF party_hooks_party, where thingy = ?p and h = went_home] ne
  have t: "fire_trace party_hooks ''party'' ?p = series ?p [went_to_party, went_home]"
    and q: "in_sequence ?p [went_to_party, went_home] (lifecycle (fire_trace party_hooks ''party'' ?p))"
    and a: "list_all completes_ok [went_to_party, went_home] \<longrightarrow>
            lifecycle (fire_trace party_hooks ''party'' ?p) = pairs ?p [went_to_party, went_home] \<and>
            invoked (fire_trace party_hooks ''party'' ?p) = map lid [went_to_party, went_home] \<and>
            dones (fire_trace party_hooks ''party'' ?p) = [[]]"
    by blast+
  from a ok have i: "invoked (fire_trace party_hooks ''party'' ?p) = [1, 2]"
    and d: "dones (fire_trace party_hooks ''party'' ?p) = [[]]"
    by (simp_all add: went_to_party_def went_home_def)
  from t have t': "fire_trace party_hooks ''party'' ?p =
     [Invoke 1 ?p, Turn Macro, Completed 1, Invoke 2 ?p, Completed 2, Turn Tick, Done []]"
    by (simp add: went_to_party_def went_home_def)
  have one: "(1::nat) < length [went_home, stayed_out, went_to_party]"
    by simp
  have w: "list_all completes_ok (take 1 [went_home, stayed_out, went_to_party]) \<and>
      never_completes ([went_home, stayed_out, went_to_party] ! 1)"
    by (simp add: went_home_def stayed_out_def)
  from listeners_fire_in_sequence [OF waiting_hooks, where thingy = ?p and h = went_home]
  have "\<forall>j<length [went_home, stayed_out, went_to_party].
      list_all completes_ok (take j [went_home, stayed_out, went_to_party]) \<and>
      never_completes ([went_home, stayed_out, went_to_party] ! j) \<longrightarrow>
      lifecycle (fire_trace ?w ''party'' ?p)
        = pairs ?p (take j [went_home, stayed_out, went_to_party])
          @ [Invoke (lid ([went_home, stayed_out, went_to_party] ! j)) ?p] \<and>
      dones (fire_trace ?w ''party'' ?p) = []"
    by blast
  with one w have "lifecycle (fire_trace ?w ''party'' ?p)
        = pairs ?p (take 1 [went_home, stayed_out, went_to_party])
          @ [Invoke (lid ([went_home, stayed_out, went_to_party] ! 1)) ?p] \<and>
      dones (fire_trace ?w ''party'' ?p) = []"
    by blast
  then have b: "lifecycle (fire_trace ?w ''party'' ?p) = [Invoke 2 ?p, Completed 2, Invoke 5 ?p]"
    and n: "dones (fire_trace ?w ''party'' ?p) = []"
    by (simp_all add: pairs_def went_home_def stayed_out_def)
  from party_hooks_party ok t' q i d one w b n show ?thesis
    by (intro conjI) simp_all
qed

text \<open>
  Claim C2, as amended. The listeners before position \<open>j\<close> complete without failure and
  the listener at \<open>j\<close> signals the failure \<open>e\<close>. Then the listeners invoked are those
  up to \<open>j\<close> and no later one, and the callback of the fire is called once, with
  \<open>e\<close> as its only argument. For a caller of the converted \<^verbatim>\<open>fireHook\<close> that passes
  no callback (the payload not being a function), the promise is rejected with \<open>e\<close>
  when \<open>e\<close> is truthy, and fulfilled when it is not.
\<close>

theorem failure_stops_the_fire:
  assumes "ensure_hooks hooks name = Some hs"
    and "j < length hs"
    and "list_all completes_ok (take j hs)"
    and "failure_of (hs ! j) = Some e"
  shows "invoked (fire_trace hooks name thingy) = map lid (take (Suc j) hs) \<and>
         dones (fire_trace hooks name thingy) = [[e]] \<and>
         (\<not> is_function thingy \<longrightarrow>
            fireHook_promise hooks name thingy =
              Some ([Str name, thingy, SynthCallback],
                    Promise (if truthy e then Rejected e else Resolved Undefined)))"
proof -
  from assms(2) have "hs \<noteq> []" by auto
  with assms(1) have s: "fire_trace hooks name thingy = series thingy hs"
    by (rule fire_trace_series)
  from series_failure [OF assms(2-4), of thingy] s
  have i: "invoked (fire_trace hooks name thingy) = map lid (take (Suc j) hs)"
    and d: "dones (fire_trace hooks name thingy) = [[e]]"
    by simp_all
  from d have "\<not> is_function thingy \<Longrightarrow>
      fireHook_promise hooks name thingy =
        Some ([Str name, thingy, SynthCallback],
              Promise (if truthy e then Rejected e else Resolved Undefined))"
    by (simp add: fireHook_promise_dones synth_callback_one)
  with i d show ?thesis by blast
qed

lemma rainy_hooks:
  "ensure_hooks (Some [''party'' \<mapsto> [went_home, rained_out, went_to_party]]) ''party''
     = Some [went_home, rained_out, went_to_party]"
  by (simp add: ensure_hooks_def)

theorem failure_stops_the_fire_witness:
  "(1::nat) < length [went_home, rained_out, went_to_party] \<and>
   list_all completes_ok (take 1 [went_home, rained_out, went_to_party]) \<and>
   failure_of ([went_home, rained_out, went_to_party] ! 1) = Some (Str ''rain'') \<and>
   invoked (fire_trace (Some [''party'' \<mapsto> [went_home, rained_out, went_to_party]]) ''party''
     (Str ''present'')) = [2, 3] \<and>
   dones (fire_trace (Some [''party'' \<mapsto> [went_home, rained_out, went_to_party]]) ''party''
     (Str ''present'')) = [[Str ''rain'']] \<and>
   fireHook_promise (Some [''party'' \<mapsto> [went_home, rained_out, went_to_party]]) ''party''
     (Str ''present'')
     = Some ([Str ''party'', Str ''present'', SynthCallback], Promise (Rejected (Str ''rain'')))"
  using failure_stops_the_fire [OF rainy_hooks, of 1 "Str ''rain''" "Str ''present''"]
  by (simp add: went_home_def rained_out_def went_to_party_def)

lemma silent_hooks:
  "ensure_hooks (Some [''party'' \<mapsto> [went_home, silent_reject, went_to_party]]) ''party''
     = Some [went_home, silent_reject, went_to_party]"
  by (simp add: ensure_hooks_def)

text \<open>
  Claim C2 as it is written: the second of three listeners is an async function whose
  promise is rejected with undefined. The third is not invoked, but the promise of the
  fire is fulfilled: the fire does not fail.
\<close>

theorem rejection_without_reason_counterexample:
  "failure_of ([went_home, silent_reject, went_to_party] ! 1) = Some Undefined \<and>
   fireHook_promise (Some [''party'' \<mapsto> [went_home, silent_reject, went_to_party]]) ''party''
     (Str ''present'')
     = Some ([Str ''party'', Str ''present'', SynthCallback], Promise (Resolved Undefined))"
proof -
  have "fire_trace (Some [''party'' \<mapsto> [went_home, silent_reject, went_to_party]]) ''party''
      (Str ''present'')
    = [Invoke 2 (Str ''present''), Completed 2, Turn Tick,
       Invoke 4 (Str ''present''), Completed 4, Turn Micro, Done [Undefined]]"
    using fire_trace_series [OF silent_hooks, of "Str ''present''"]
    by (simp add: went_home_def silent_reject_def went_to_party_def)
  then show ?thesis
    by (simp add: fireHook_promise_dones synth_callback_one silent_reject_def)
qed

text \<open>
  A fire with nothing to fire: when the registry is absent, or there is nothing under
  the name, not even inherited, or an empty array, nothing happens before \<^verbatim>\<open>fireHook\<close>
  returns and the callback is waiting in the tick queue. The whole fire is one turn of
  the tick queue in which the callback is called without an error; the promise of the
  converted \<^verbatim>\<open>fireHook\<close> is fulfilled.
\<close>

lemma fire_on_next_tick:
  assumes "nothing_to_fire (hooks_get (ensure_hooks hooks) name)"
  shows "trace (snd (fireHook hooks name thingy)) = [] \<and>
         pending (snd (fireHook hooks name thingy)) = [Run_callback] \<and>
         fire_trace hooks name thingy = [Turn Tick, Done []] \<and>
         (\<not> is_function thingy \<longrightarrow>
            fireHook_promise hooks name thingy =
              Some ([Str name, thingy, SynthCallback], Promise (Resolved Undefined)))"
proof -
  from assms have t: "trace (snd (fireHook hooks name thingy)) = []"
    and p: "pending (snd (fireHook hooks name thingy)) = [Run_callback]"
    and f: "fire_trace hooks name thingy = [Turn Tick, Done []]"
    by (simp_all add: fire_trace_empty)
  from f have "\<not> is_function thingy \<Longrightarrow>
      fireHook_promise hooks name thingy =
        Some ([Str name, thingy, SynthCallback], Promise (Resolved Undefined))"
    by (simp add: fireHook_promise_dones synth_callback_none)
  with t p f show ?thesis by blast
qed

lemma fire_on_next_tick_party:
  "fire_trace None ''party'' (Str ''present'') = [Turn Tick, Done []] \<and>
   fire_trace party_hooks ''wake'' (Str ''present'') = [Turn Tick, Done []]"
  using fire_on_next_tick [of None "''party''" "Str ''present''"]
    fire_on_next_tick [of party_hooks "''wake''" "Str ''present''"]
  by (simp add: nothing_to_fire_def hooks_get_def object_prototype_def ensure_hooks_def
      party_hooks_def registerHook_def)

text \<open>
  Claim C5, on an instance without a registry and the hook name \<^verbatim>\<open>hasOwnProperty\<close>.
  No listener is registered. \<^verbatim>\<open>this.hooks[name]\<close> is the function that \<^verbatim>\<open>{}\<close>
  inherits, of length 1, so \<^verbatim>\<open>fireHook\<close> does not take the branch of
  \<^verbatim>\<open>process.nextTick\<close>: the callback has been called when \<^verbatim>\<open>fireHook\<close> returns,
  nothing is waiting, and no turn of the event loop is part of the fire.
\<close>

theorem inherited_name_fires_at_once:
  "ensure_hooks None ''hasOwnProperty'' = None \<and>
   trace (snd (fireHook None ''hasOwnProperty'' thingy)) = [Done []] \<and>
   pending (snd (fireHook None ''hasOwnProperty'' thingy)) = [] \<and>
   fire_trace None ''hasOwnProperty'' thingy = [Done []]"
  using fire_trace_inherited [of None "''hasOwnProperty''" 0 thingy]
  by (simp add: ensure_hooks_def object_prototype_def)

end
